theory Spec2Isabelle
  imports Main
begin

section \<open>Parsing the seat count (\<open>parseAvailableSeats\<close>, lines 128-136)\<close>

text \<open>
  Go strings are byte sequences and so are HOL strings. The regular expression of line 129
  is a literal, an optional minus sign, a non-empty greedy run of ASCII digits and a second
  literal:
  \<^verbatim>\<open>Enrollment Seats Available:</span> <span dir="ltr"> (-?\d+) </span>\<close>
  \<open>FindStringSubmatch\<close> returns the leftmost match. At a given start position the match
  is unique: the sign must be taken when it is there (a digit never matches it) and the
  digit run must be taken whole (the literal after it starts with a space).
\<close>

datatype error =
    HtmlNoMatch          \<comment> \<open>\<open>errors.New("could not find available seats in HTML")\<close>\<close>
  | AtoiSyntax string    \<comment> \<open>\<open>strconv.ErrSyntax\<close> for the given text\<close>
  | AtoiRange string     \<comment> \<open>\<open>strconv.ErrRange\<close> for the given text\<close>
  | External string      \<comment> \<open>an error value of net/http, ioutil or net/smtp\<close>

definition seats_prefix :: string where
  "seats_prefix =
     ''Enrollment Seats Available:</span> <span dir='' @ [CHR 0x22] @ ''ltr'' @ [CHR 0x22] @ ''> ''"

definition seats_suffix :: string where
  "seats_suffix = '' </span>''"

definition is_digit :: "char \<Rightarrow> bool" where
  "is_digit c \<longleftrightarrow> (48::nat) \<le> of_char c \<and> of_char c \<le> (57::nat)"

fun strip_prefix :: "string \<Rightarrow> string \<Rightarrow> string option" where
  "strip_prefix [] s = Some s"
| "strip_prefix (p # ps) [] = None"
| "strip_prefix (p # ps) (c # cs) = (if p = c then strip_prefix ps cs else None)"

text \<open>The capture group of a match that starts at the head of the text, if there is one.\<close>

definition match_here :: "string \<Rightarrow> string option" where
  "match_here s =
     (case strip_prefix seats_prefix s of
        None \<Rightarrow> None
      | Some r \<Rightarrow>
          let sign = (if r \<noteq> [] \<and> hd r = CHR ''-'' then ''-'' else '''');
              r1 = drop (length sign) r;
              ds = takeWhile is_digit r1;
              r2 = dropWhile is_digit r1
          in if ds = [] then None
             else (case strip_prefix seats_suffix r2 of
                     None \<Rightarrow> None
                   | Some _ \<Rightarrow> Some (sign @ ds)))"

text \<open>\<open>matches[1]\<close> of the leftmost match; \<open>None\<close> when \<open>len(matches) < 2\<close>.\<close>

fun find_submatch :: "string \<Rightarrow> string option" where
  "find_submatch [] = match_here []"
| "find_submatch (c # cs) =
     (case match_here (c # cs) of Some m \<Rightarrow> Some m | None \<Rightarrow> find_submatch cs)"

text \<open>
  \<open>strconv.Atoi\<close>: an optional sign, then decimal digits; \<open>ErrSyntax\<close> for anything
  else, \<open>ErrRange\<close> when the value does not fit the \<open>int\<close> type of \<open>bits\<close> bits.
\<close>

definition digits_val :: "string \<Rightarrow> int" where
  "digits_val ds = foldl (\<lambda>acc c. 10 * acc + (of_char c - 48)) 0 ds"

definition Atoi :: "nat \<Rightarrow> string \<Rightarrow> error + int" where
  "Atoi bits s =
     (let neg = (s \<noteq> [] \<and> hd s = CHR ''-'');
          ds = (if s \<noteq> [] \<and> (hd s = CHR ''-'' \<or> hd s = CHR ''+'') then tl s else s);
          v = (if neg then - digits_val ds else digits_val ds)
      in if ds = [] \<or> \<not> list_all is_digit ds then Inl (AtoiSyntax s)
         else if v < - (2 ^ (bits - 1)) \<or> 2 ^ (bits - 1) - 1 < v then Inl (AtoiRange s)
         else Inr v)"

text \<open>Go's \<open>int\<close> has 64 bits on the 64-bit targets.\<close>

definition intSize :: nat where
  "intSize = 64"

definition parseAvailableSeats :: "string \<Rightarrow> error + int" where
  "parseAvailableSeats htmlStr =
     (case find_submatch htmlStr of
        None \<Rightarrow> Inl HtmlNoMatch
      | Some m \<Rightarrow> Atoi intSize m)"

text \<open>The language of the regular expression, as a predicate on the whole text.\<close>

definition capture :: "string \<Rightarrow> bool" where
  "capture m \<longleftrightarrow> (\<exists>sg ds. m = sg @ ds \<and> (sg = [] \<or> sg = ''-'') \<and> ds \<noteq> [] \<and> list_all is_digit ds)"

definition has_pattern :: "string \<Rightarrow> bool" where
  "has_pattern s \<longleftrightarrow>
     (\<exists>pre m post. s = pre @ seats_prefix @ m @ seats_suffix @ post \<and> capture m)"

text \<open>
  The capture of the leftmost match: the text splits around a match with this capture, and
  no match starts further to the left.
\<close>

definition leftmost_capture :: "string \<Rightarrow> string \<Rightarrow> bool" where
  "leftmost_capture s m \<longleftrightarrow>
     (\<exists>pre post. s = pre @ seats_prefix @ m @ seats_suffix @ post \<and> capture m \<and>
        (\<forall>pre' m' post'. s = pre' @ seats_prefix @ m' @ seats_suffix @ post' \<and> capture m'
           \<longrightarrow> length pre \<le> length pre'))"

text \<open>The integer a capture denotes, and whether it fits Go's \<open>int\<close>.\<close>

definition capture_val :: "string \<Rightarrow> int" where
  "capture_val m = (if m \<noteq> [] \<and> hd m = CHR ''-'' then - digits_val (tl m) else digits_val m)"

definition fits_int :: "int \<Rightarrow> bool" where
  "fits_int v \<longleftrightarrow> - (2 ^ (intSize - 1)) \<le> v \<and> v \<le> 2 ^ (intSize - 1) - 1"

section \<open>Events\<close>

text \<open>
  A channel is known by the order of its allocation. What the program does is recorded as a
  trace of events, in the order of the statements that produce them. The first group (up to
  \<open>EvRespond\<close>) is executed by a request handler, the second by a watcher goroutine:
  \<open>EvChanRecv\<close> is the stop case of the \<open>select\<close>, \<open>EvCheck\<close> its ticker case (an
  availability check begins, line 86), \<open>EvHttpPost\<close> the network call of line 99,
  \<open>EvNotify\<close> the call of line 119, \<open>EvSendMail\<close> the mail send of line 149, and
  the last two are the log lines. \<open>EvChanSend\<close> records that the send statement of line 67
  is executed; the send is complete when \<open>EvChanRecv\<close> follows.
\<close>

type_synonym chan = nat

type_synonym response = "nat \<times> string \<times> string"  \<comment> \<open>status code, JSON key, JSON value\<close>

datatype event =
    EvLock | EvUnlock
  | EvMapLookup string | EvMapInsert string chan | EvMapDelete string
  | EvMakeChan chan | EvGo chan
  | EvChanSend chan | EvChanClose chan
  | EvRespond response
  | EvChanRecv chan
  | EvCheck chan string
  | EvHttpPost string
  | EvNotify string int string
  | EvSendMail string string
  | EvLog "string list"
  | EvLogErr string error

section \<open>The notification (\<open>sendEmailNotification\<close>, lines 138-155)\<close>

text \<open>
  The mail server's answer is an input; the function returns what it does: the mail send
  and one of the two log lines.
\<close>

fun nat_digits :: "nat \<Rightarrow> string" where
  "nat_digits n =
     (if n < 10 then [char_of (48 + n)] else nat_digits (n div 10) @ [char_of (48 + n mod 10)])"

declare nat_digits.simps [simp del]

definition Itoa :: "int \<Rightarrow> string" where
  "Itoa i = (if i < 0 then CHR ''-'' # nat_digits (nat (- i)) else nat_digits (nat i))"

definition mail_message :: "int \<Rightarrow> string \<Rightarrow> string" where
  "mail_message availableSeats crn =
     ''Subject: Course Slot Available'' @ [CHR 0x0D, CHR 0x0A, CHR 0x0D, CHR 0x0A] @
     ''A slot is available. There are '' @ Itoa availableSeats @
     '' seats available for you subscribe course: '' @ crn"

datatype smtp_result = SmtpOk | SmtpFailed string

definition sendEmailNotification :: "string \<Rightarrow> int \<Rightarrow> string \<Rightarrow> smtp_result \<Rightarrow> event list" where
  "sendEmailNotification email availableSeats crn res =
     EvSendMail email (mail_message availableSeats crn) #
     (case res of
        SmtpFailed e \<Rightarrow> [EvLogErr ''Error sending email: '' (External e)]
      | SmtpOk \<Rightarrow> [EvLog [''Send Notification to'', email, ''Successfully'']])"

section \<open>The watcher (\<open>checkCourseAvailability\<close>, lines 79-126)\<close>

text \<open>
  A watcher goroutine is either waiting in its \<open>select\<close> (or on its way back to it) or
  has returned. One iteration of the loop is one step. The ticker case runs the body of
  lines 86-120 with what the network and the mail server answer: each of the four error
  returns ends the goroutine, anything else leaves it in the loop. The stop case is the
  receiving half of the send of line 67 and ends the goroutine.
\<close>

datatype wstatus = Running | Terminated

record watcher =
  w_email :: string
  w_crn :: string
  w_chan :: chan
  w_status :: wstatus

datatype fetch =
    NewRequestFailed string   \<comment> \<open>line 92\<close>
  | DoFailed string           \<comment> \<open>line 100\<close>
  | ReadAllFailed string      \<comment> \<open>line 107\<close>
  | Body string               \<comment> \<open>the response body\<close>

definition tick_body :: "watcher \<Rightarrow> fetch \<Rightarrow> smtp_result \<Rightarrow> wstatus \<times> event list" where
  "tick_body w f res =
     (case f of
        NewRequestFailed e \<Rightarrow>
          (Terminated,
           [EvCheck (w_chan w) (w_crn w), EvLogErr ''Error creating request: '' (External e)])
      | DoFailed e \<Rightarrow>
          (Terminated,
           [EvCheck (w_chan w) (w_crn w), EvHttpPost (w_crn w),
            EvLogErr ''Error making request: '' (External e)])
      | ReadAllFailed e \<Rightarrow>
          (Terminated,
           [EvCheck (w_chan w) (w_crn w), EvHttpPost (w_crn w),
            EvLogErr ''Error reading response body: '' (External e)])
      | Body b \<Rightarrow>
          (case parseAvailableSeats b of
             Inl err \<Rightarrow>
               (Terminated,
                [EvCheck (w_chan w) (w_crn w), EvHttpPost (w_crn w),
                 EvLogErr ''Error parsing available seats: '' err])
           | Inr availableSeats \<Rightarrow>
               (Running,
                EvCheck (w_chan w) (w_crn w) # EvHttpPost (w_crn w) #
                (if availableSeats > 0
                 then EvNotify (w_email w) availableSeats (w_crn w) #
                      sendEmailNotification (w_email w) availableSeats (w_crn w) res
                 else []))))"

definition stop_case :: "watcher \<Rightarrow> wstatus \<times> event list" where
  "stop_case w = (Terminated, [EvChanRecv (w_chan w), EvLog [''Stopping course check for'', w_email w]])"

section \<open>The registry (\<open>startCourseCheckHandler\<close>, \<open>stopCourseCheckHandler\<close>, lines 18-77)\<close>

record state =
  subscriptions :: "string \<rightharpoonup> chan"
  mux_held :: bool
  next_chan :: chan
  closed_chans :: "chan set"
  goroutines :: "watcher list"
  events :: "event list"

definition init :: state where
  "init = \<lparr>subscriptions = Map.empty, mux_held = False, next_chan = 0, closed_chans = {},
           goroutines = [], events = []\<rparr>"

text \<open>
  A handler returns its response, or never returns: it waits for ever for the mutex or in
  a channel send that no goroutine will receive, or it panics in a send on a closed channel.
\<close>

datatype outcome = Returned response | Blocked | Panicked

definition Started :: "string \<Rightarrow> response" where
  "Started email = (200, ''message'', ''Course availability check started for '' @ email)"

definition AlreadyActive :: response where
  "AlreadyActive = (400, ''error'', ''A check is already running for this email'')"

definition Stopped :: "string \<Rightarrow> response" where
  "Stopped email = (200, ''message'', ''Course check stopped for '' @ email)"

definition NotFound :: response where
  "NotFound = (400, ''error'', ''No active check found for this email'')"

definition EmailAndCrnRequired :: response where
  "EmailAndCrnRequired = (400, ''error'', ''Email and CRN are required'')"

definition EmailRequired :: response where
  "EmailRequired = (400, ''error'', ''Email is required'')"

definition emit :: "event list \<Rightarrow> state \<Rightarrow> state" where
  "emit es s = s\<lparr>events := events s @ es\<rparr>"

text \<open>The goroutine that can receive from a channel: the watcher bound to it, in its \<open>select\<close>.\<close>

definition at_select :: "chan \<Rightarrow> watcher \<Rightarrow> bool" where
  "at_select ch w \<longleftrightarrow> w_chan w = ch \<and> w_status w = Running"

text \<open>
  The mutex serialises the critical sections, so a handler is one step. The send of line 67
  is on an unbuffered channel: it is complete when the watcher bound to the channel takes the
  stop case of its \<open>select\<close>, which a running watcher does once it is back there; it is
  never complete when that watcher has returned, and the handler then stays inside its
  critical section. A handler that finds the mutex held therefore finds it held for ever:
  only a handler that never returns leaves it held.
\<close>

definition startCourseCheckHandler :: "string \<Rightarrow> string \<Rightarrow> state \<Rightarrow> outcome \<times> state" where
  "startCourseCheckHandler email crn s =
     (if email = [] \<or> crn = [] then
        (Returned EmailAndCrnRequired, emit [EvRespond EmailAndCrnRequired] s)
      else if mux_held s then (Blocked, s)
      else
        (case subscriptions s email of
           Some _ \<Rightarrow>
             (Returned AlreadyActive,
              emit [EvLock, EvMapLookup email, EvUnlock, EvRespond AlreadyActive] s)
         | None \<Rightarrow>
             let stopChan = next_chan s in
             (Returned (Started email),
              s\<lparr>subscriptions := (subscriptions s)(email \<mapsto> stopChan),
                next_chan := Suc stopChan,
                goroutines := goroutines s @
                  [\<lparr>w_email = email, w_crn = crn, w_chan = stopChan, w_status = Running\<rparr>],
                events := events s @
                  [EvLock, EvMapLookup email, EvMakeChan stopChan, EvMapInsert email stopChan,
                   EvUnlock, EvGo stopChan, EvRespond (Started email)]\<rparr>)))"

definition stopCourseCheckHandler :: "string \<Rightarrow> state \<Rightarrow> outcome \<times> state" where
  "stopCourseCheckHandler email s =
     (if email = [] then (Returned EmailRequired, emit [EvRespond EmailRequired] s)
      else if mux_held s then (Blocked, s)
      else
        (case subscriptions s email of
           Some stopChan \<Rightarrow>
             if stopChan \<in> closed_chans s then
               (Panicked, (emit [EvLock, EvMapLookup email, EvChanSend stopChan] s)\<lparr>mux_held := True\<rparr>)
             else if \<not> list_ex (at_select stopChan) (goroutines s) then
               (Blocked, (emit [EvLock, EvMapLookup email, EvChanSend stopChan] s)\<lparr>mux_held := True\<rparr>)
             else
               (Returned (Stopped email),
                s\<lparr>subscriptions := (subscriptions s)(email := None),
                  closed_chans := insert stopChan (closed_chans s),
                  goroutines :=
                    map (\<lambda>w. if at_select stopChan w then w\<lparr>w_status := fst (stop_case w)\<rparr> else w)
                      (goroutines s),
                  events := events s @
                    [EvLock, EvMapLookup email, EvChanSend stopChan] @
                    concat (map (\<lambda>w. snd (stop_case w)) (filter (at_select stopChan) (goroutines s))) @
                    [EvChanClose stopChan, EvMapDelete email, EvUnlock, EvRespond (Stopped email)]\<rparr>)
         | None \<Rightarrow>
             (Returned NotFound, emit [EvLock, EvMapLookup email, EvUnlock, EvRespond NotFound] s)))"

text \<open>The ticker of the watcher bound to \<open>ch\<close> fires; a watcher that has returned has no ticker.\<close>

definition tick :: "chan \<Rightarrow> fetch \<Rightarrow> smtp_result \<Rightarrow> state \<Rightarrow> state" where
  "tick ch f res s =
     s\<lparr>goroutines :=
         map (\<lambda>w. if at_select ch w then w\<lparr>w_status := fst (tick_body w f res)\<rparr> else w) (goroutines s),
       events := events s @
         concat (map (\<lambda>w. snd (tick_body w f res)) (filter (at_select ch) (goroutines s)))\<rparr>"

datatype input = Start string string | Stop string | Tick chan fetch smtp_result

fun step :: "input \<Rightarrow> state \<Rightarrow> state" where
  "step (Start email crn) s = snd (startCourseCheckHandler email crn s)"
| "step (Stop email) s = snd (stopCourseCheckHandler email s)"
| "step (Tick ch f res) s = tick ch f res s"

fun run :: "input list \<Rightarrow> state \<Rightarrow> state" where
  "run [] s = s"
| "run (i # is) s = run is (step i s)"

inductive reachable :: "state \<Rightarrow> bool" where
  reachable_init: "reachable init"
| reachable_step: "reachable s \<Longrightarrow> reachable (step i s)"

section \<open>Invariants and observations\<close>

text \<open>
  Channels are allocated in order and never shared between goroutines; a registered channel
  is open and belongs to a watcher spawned for its key; a watcher that is still running is
  registered under its own channel.
\<close>

definition inv :: "state \<Rightarrow> bool" where
  "inv s \<longleftrightarrow>
     distinct (map w_chan (goroutines s)) \<and>
     (\<forall>w \<in> set (goroutines s). w_chan w < next_chan s) \<and>
     (\<forall>c \<in> closed_chans s. c < next_chan s) \<and>
     (\<forall>k c. subscriptions s k = Some c \<longrightarrow>
        c \<notin> closed_chans s \<and> (\<exists>w \<in> set (goroutines s). w_chan w = c \<and> w_email w = k)) \<and>
     (\<forall>w \<in> set (goroutines s). w_status w = Running \<longrightarrow>
        subscriptions s (w_email w) = Some (w_chan w))"

text \<open>The watcher goroutines of a key that have not returned.\<close>

definition live_for :: "string \<Rightarrow> state \<Rightarrow> watcher list" where
  "live_for k s = filter (\<lambda>w. w_email w = k \<and> w_status w = Running) (goroutines s)"

text \<open>The events a step appends to the trace.\<close>

definition new_events :: "state \<Rightarrow> state \<Rightarrow> event list" where
  "new_events s s' = drop (length (events s)) (events s')"

fun is_notify :: "event \<Rightarrow> bool" where
  "is_notify (EvNotify _ _ _) = True"
| "is_notify _ = False"

fun is_check :: "chan \<Rightarrow> event \<Rightarrow> bool" where
  "is_check ch (EvCheck c _) = (c = ch)"
| "is_check ch _ = False"

text \<open>How often the send statement of line 67 has been executed on a channel.\<close>

definition send_count :: "chan \<Rightarrow> event list \<Rightarrow> nat" where
  "send_count ch es = length (filter (\<lambda>e. e = EvChanSend ch) es)"

definition inv_send :: "state \<Rightarrow> bool" where
  "inv_send s \<longleftrightarrow>
     (\<forall>ch. send_count ch (events s) \<le> 1 \<and>
        (next_chan s \<le> ch \<longrightarrow> send_count ch (events s) = 0) \<and>
        (send_count ch (events s) = 1 \<longrightarrow> mux_held s \<or> (\<forall>k. subscriptions s k \<noteq> Some ch)))"

text \<open>Whether, in a handler's events, the entry of a key is deleted before a channel is sent to.\<close>

fun removed_before_signal :: "string \<Rightarrow> chan \<Rightarrow> event list \<Rightarrow> bool" where
  "removed_before_signal k ch [] = True"
| "removed_before_signal k ch (e # es) =
     (if e = EvMapDelete k then True
      else if e = EvChanSend ch then False
      else removed_before_signal k ch es)"

text \<open>The events of the handlers, and those between \<open>Lock\<close> and \<open>Unlock\<close>.\<close>

fun by_handler :: "event \<Rightarrow> bool" where
  "by_handler (EvChanRecv _) = False"
| "by_handler (EvCheck _ _) = False"
| "by_handler (EvHttpPost _) = False"
| "by_handler (EvNotify _ _ _) = False"
| "by_handler (EvSendMail _ _) = False"
| "by_handler (EvLog _) = False"
| "by_handler (EvLogErr _ _) = False"
| "by_handler _ = True"

fun under_lock :: "bool \<Rightarrow> event list \<Rightarrow> event list" where
  "under_lock held [] = []"
| "under_lock held (e # es) =
     (if e = EvLock then under_lock True es
      else if e = EvUnlock then under_lock False es
      else if held then e # under_lock held es
      else under_lock held es)"

text \<open>Operations that wait for another party: a channel send, a network call, a mail send.\<close>

fun blocking :: "event \<Rightarrow> bool" where
  "blocking (EvChanSend _) = True"
| "blocking (EvHttpPost _) = True"
| "blocking (EvSendMail _ _) = True"
| "blocking _ = False"

definition critical_section :: "state \<Rightarrow> state \<Rightarrow> event list" where
  "critical_section s s' = under_lock False (filter by_handler (new_events s s'))"

text \<open>A channel that has been allocated and whose watcher has returned.\<close>

definition returned :: "chan \<Rightarrow> state \<Rightarrow> bool" where
  "returned ch s \<longleftrightarrow>
     ch < next_chan s \<and> list_all (\<lambda>w. w_chan w = ch \<longrightarrow> w_status w = Terminated) (goroutines s)"

text \<open>The network call of a check and the mail send of a notification.\<close>

fun network_or_mail :: "event \<Rightarrow> bool" where
  "network_or_mail (EvHttpPost _) = True"
| "network_or_mail (EvSendMail _ _) = True"
| "network_or_mail _ = False"

section \<open>The seat-count parser\<close>

lemma strip_prefix_eq: "strip_prefix p s = Some r \<longleftrightarrow> s = p @ r"
  by (induction p s rule: strip_prefix.induct) auto

lemma not_digit_minus: "\<not> is_digit CHR ''-''"
  by (simp add: is_digit_def)

lemma not_digit_space: "\<not> is_digit CHR '' ''"
  by (simp add: is_digit_def)

lemma suffix_head: "seats_suffix @ post = CHR '' '' # tl (seats_suffix @ post)"
  by (simp add: seats_suffix_def)

lemma takeWhile_digits:
  "list_all is_digit ds \<Longrightarrow> takeWhile is_digit (ds @ seats_suffix @ post) = ds"
  by (subst suffix_head) (simp add: list_all_iff takeWhile_append2 not_digit_space)

lemma dropWhile_digits:
  "list_all is_digit ds \<Longrightarrow> dropWhile is_digit (ds @ seats_suffix @ post) = seats_suffix @ post"
  by (subst suffix_head, subst (2) suffix_head) (simp add: list_all_iff dropWhile_append2 not_digit_space)

lemma match_here_intro:
  assumes "capture m"
  shows "match_here (seats_prefix @ m @ seats_suffix @ post) = Some m"
proof -
  from assms obtain sg ds where m: "m = sg @ ds" and sg: "sg = [] \<or> sg = ''-''"
    and ne: "ds \<noteq> []" and dg: "list_all is_digit ds"
    by (auto simp: capture_def)
  have sp: "strip_prefix seats_prefix (seats_prefix @ m @ seats_suffix @ post) = Some (m @ seats_suffix @ post)"
    by (simp add: strip_prefix_eq)
  have ss: "strip_prefix seats_suffix (seats_suffix @ post) = Some post"
    by (simp add: strip_prefix_eq)
  from sg show ?thesis
  proof
    assume e: "sg = []"
    from ne dg have "is_digit (hd ds)" by (cases ds) auto
    then have "hd ds \<noteq> CHR ''-''" using not_digit_minus by auto
    with e m ne dg sp ss show ?thesis
      by (simp add: match_here_def Let_def takeWhile_digits dropWhile_digits)
  next
    assume e: "sg = ''-''"
    with m ne dg sp ss show ?thesis
      by (simp add: match_here_def Let_def takeWhile_digits dropWhile_digits)
  qed
qed

lemma match_here_elim:
  assumes "match_here s = Some m"
  shows "capture m \<and> (\<exists>post. s = seats_prefix @ m @ seats_suffix @ post)"
proof -
  from assms obtain r where r: "strip_prefix seats_prefix s = Some r"
    by (auto simp: match_here_def split: option.splits)
  define sign where "sign = (if r \<noteq> [] \<and> hd r = CHR ''-'' then ''-'' else '''')"
  define r1 where "r1 = drop (length sign) r"
  have rr: "r = sign @ r1" unfolding r1_def sign_def by (cases r) auto
  from assms r have ne: "takeWhile is_digit r1 \<noteq> []"
    and m: "m = sign @ takeWhile is_digit r1"
    and "strip_prefix seats_suffix (dropWhile is_digit r1) \<noteq> None"
    by (auto simp: match_here_def Let_def sign_def r1_def split: option.splits if_splits)
  then obtain post where post: "dropWhile is_digit r1 = seats_suffix @ post"
    by (auto simp: strip_prefix_eq)
  have "r1 = takeWhile is_digit r1 @ dropWhile is_digit r1" by simp
  with post have r1: "r1 = takeWhile is_digit r1 @ seats_suffix @ post" by simp
  have "list_all is_digit (takeWhile is_digit r1)"
    by (auto simp: list_all_iff dest: set_takeWhileD)
  with ne m have "capture m"
    unfolding capture_def sign_def by (intro exI[of _ "if r \<noteq> [] \<and> hd r = CHR ''-'' then ''-'' else ''''"] exI[of _ "takeWhile is_digit r1"]) auto
  moreover from r have "s = seats_prefix @ r" by (simp add: strip_prefix_eq)
  with rr r1 m have "s = seats_prefix @ m @ seats_suffix @ post" by (metis append.assoc)
  ultimately show ?thesis by blast
qed

lemma find_submatch_Some:
  "find_submatch s = Some m \<Longrightarrow>
     capture m \<and> (\<exists>pre post. s = pre @ seats_prefix @ m @ seats_suffix @ post)"
proof (induction s)
  case Nil
  then show ?case using match_here_elim[of "[]" m] by (auto intro: exI[of _ "[]"])
next
  case (Cons c cs)
  show ?case
  proof (cases "match_here (c # cs)")
    case None
    with Cons have "capture m \<and> (\<exists>pre post. cs = pre @ seats_prefix @ m @ seats_suffix @ post)" by simp
    then obtain pre post where "capture m" "cs = pre @ seats_prefix @ m @ seats_suffix @ post" by blast
    then have "capture m" "c # cs = (c # pre) @ seats_prefix @ m @ seats_suffix @ post" by simp_all
    then show ?thesis by blast
  next
    case (Some a)
    with Cons.prems have "a = m" by simp
    with Some match_here_elim[of "c # cs" m] obtain post where "capture m" "c # cs = [] @ seats_prefix @ m @ seats_suffix @ post" by auto
    then show ?thesis by blast
  qed
qed

lemma find_submatch_pattern:
  "capture m \<Longrightarrow> find_submatch (pre @ seats_prefix @ m @ seats_suffix @ post) \<noteq> None"
proof (induction pre)
  case Nil
  have "seats_prefix @ m @ seats_suffix @ post \<noteq> []" by (simp add: seats_prefix_def)
  then obtain c cs where e: "seats_prefix @ m @ seats_suffix @ post = c # cs" by (cases "seats_prefix @ m @ seats_suffix @ post") auto
  from Nil have "match_here (c # cs) = Some m" using match_here_intro[of m post] e by simp
  then show ?case using e by simp
next
  case (Cons a pre)
  then show ?case by (simp split: option.splits)
qed

lemma find_submatch_None_iff: "find_submatch s = None \<longleftrightarrow> \<not> has_pattern s"
proof
  assume n: "find_submatch s = None"
  show "\<not> has_pattern s"
  proof
    assume "has_pattern s"
    then obtain pre m post where "s = pre @ seats_prefix @ m @ seats_suffix @ post" "capture m"
      by (auto simp: has_pattern_def)
    with find_submatch_pattern[of m pre post] n show False by simp
  qed
next
  assume h: "\<not> has_pattern s"
  show "find_submatch s = None"
  proof (cases "find_submatch s")
    case None then show ?thesis .
  next
    case (Some m)
    from find_submatch_Some[OF Some] h show ?thesis unfolding has_pattern_def by blast
  qed
qed

lemma Atoi_capture:
  assumes "capture m"
  shows "Atoi intSize m = (if fits_int (capture_val m) then Inr (capture_val m) else Inl (AtoiRange m))"
proof -
  from assms obtain sg ds where m: "m = sg @ ds" and sg: "sg = [] \<or> sg = ''-''"
    and ne: "ds \<noteq> []" and dg: "list_all is_digit ds"
    by (auto simp: capture_def)
  from ne dg have hd: "is_digit (hd ds)" by (cases ds) auto
  then have nm: "hd ds \<noteq> CHR ''-''" "hd ds \<noteq> CHR ''+''" by (auto simp: is_digit_def)
  from sg show ?thesis
  proof
    assume "sg = []"
    with m ne dg nm show ?thesis
      by (auto simp: Atoi_def Let_def capture_val_def fits_int_def)
  next
    assume "sg = ''-''"
    with m ne dg show ?thesis
      by (auto simp: Atoi_def Let_def capture_val_def fits_int_def)
  qed
qed

lemma parse_no_match: "parseAvailableSeats s = Inl HtmlNoMatch \<longleftrightarrow> \<not> has_pattern s"
proof (cases "find_submatch s")
  case None
  then show ?thesis using find_submatch_None_iff[of s] by (simp add: parseAvailableSeats_def)
next
  case (Some m)
  then have "capture m" using find_submatch_Some by blast
  then have "Atoi intSize m \<noteq> Inl HtmlNoMatch" by (simp add: Atoi_capture)
  with Some show ?thesis using find_submatch_None_iff[of s] by (simp add: parseAvailableSeats_def)
qed

lemma find_submatch_first:
  "find_submatch s = Some m \<Longrightarrow>
     \<exists>k \<le> length s. match_here (drop k s) = Some m \<and> (\<forall>j < k. match_here (drop j s) = None)"
proof (induction s)
  case Nil
  then show ?case by simp
next
  case (Cons c cs)
  show ?case
  proof (cases "match_here (c # cs)")
    case (Some a)
    with Cons.prems have "match_here (drop 0 (c # cs)) = Some m" by simp
    then show ?thesis by (intro exI[of _ 0]) simp
  next
    case None
    with Cons.prems have "find_submatch cs = Some m" by simp
    from Cons.IH[OF this] obtain k where k: "k \<le> length cs" "match_here (drop k cs) = Some m"
      "\<forall>j < k. match_here (drop j cs) = None" by blast
    have "\<forall>j < Suc k. match_here (drop j (c # cs)) = None"
    proof (intro allI impI)
      fix j assume "j < Suc k"
      then show "match_here (drop j (c # cs)) = None"
        using None k(3) by (cases j) auto
    qed
    with k show ?thesis by (intro exI[of _ "Suc k"]) simp
  qed
qed

lemma match_at_decomposition:
  assumes "s = pre @ seats_prefix @ m @ seats_suffix @ post" and "capture m"
  shows "match_here (drop (length pre) s) = Some m"
  using assms match_here_intro[of m post] by simp

lemma find_submatch_leftmost:
  assumes "find_submatch s = Some m"
  shows "leftmost_capture s m"
proof -
  from find_submatch_first[OF assms] obtain k where k: "k \<le> length s"
    "match_here (drop k s) = Some m" "\<forall>j < k. match_here (drop j s) = None" by blast
  from match_here_elim[OF k(2)] obtain post
    where c: "capture m" and d: "drop k s = seats_prefix @ m @ seats_suffix @ post" by blast
  have s: "s = take k s @ seats_prefix @ m @ seats_suffix @ post"
    using d by (metis append_take_drop_id)
  have l: "length (take k s) = k" using k(1) by simp
  have "\<forall>pre' m' post'. s = pre' @ seats_prefix @ m' @ seats_suffix @ post' \<and> capture m'
           \<longrightarrow> length (take k s) \<le> length pre'"
  proof (intro allI impI)
    fix pre' m' post'
    assume a: "s = pre' @ seats_prefix @ m' @ seats_suffix @ post' \<and> capture m'"
    then have "match_here (drop (length pre') s) = Some m'"
      using match_at_decomposition by blast
    with k(3) have "\<not> length pre' < k" by auto
    with l show "length (take k s) \<le> length pre'" by simp
  qed
  with s c show ?thesis unfolding leftmost_capture_def by blast
qed

lemma leftmost_find_submatch:
  assumes "leftmost_capture s m"
  shows "find_submatch s = Some m"
proof -
  from assms obtain pre post where s: "s = pre @ seats_prefix @ m @ seats_suffix @ post"
    and c: "capture m"
    and least: "\<And>pre' m' post'. s = pre' @ seats_prefix @ m' @ seats_suffix @ post' \<Longrightarrow>
        capture m' \<Longrightarrow> length pre \<le> length pre'"
    unfolding leftmost_capture_def by blast
  from s c have "has_pattern s" unfolding has_pattern_def by blast
  then obtain m0 where m0: "find_submatch s = Some m0"
    using find_submatch_None_iff[of s] by (cases "find_submatch s") auto
  from find_submatch_first[OF m0] obtain k where k: "k \<le> length s"
    "match_here (drop k s) = Some m0" "\<forall>j < k. match_here (drop j s) = None" by blast
  have here: "match_here (drop (length pre) s) = Some m"
    by (rule match_at_decomposition[OF s c])
  with k(3) have 1: "k \<le> length pre" by (metis not_le_imp_less option.distinct(1))
  from match_here_elim[OF k(2)] obtain post0
    where c0: "capture m0" and d: "drop k s = seats_prefix @ m0 @ seats_suffix @ post0" by blast
  have "s = take k s @ seats_prefix @ m0 @ seats_suffix @ post0"
    using d by (metis append_take_drop_id)
  from least[OF this c0] k(1) have 2: "length pre \<le> k" by simp
  from 1 2 have "k = length pre" by simp
  with k(2) here have "m0 = m" by simp
  with m0 show ?thesis by simp
qed

lemma leftmost_capture_iff: "leftmost_capture s m \<longleftrightarrow> find_submatch s = Some m"
  using find_submatch_leftmost leftmost_find_submatch by blast

lemma has_pattern_leftmost: "has_pattern s \<Longrightarrow> \<exists>m. leftmost_capture s m"
  using find_submatch_None_iff[of s] find_submatch_leftmost[of s]
  by (cases "find_submatch s") auto

lemma parse_leftmost:
  assumes "leftmost_capture s m"
  shows "parseAvailableSeats s =
           (if fits_int (capture_val m) then Inr (capture_val m) else Inl (AtoiRange m))"
proof -
  from assms have c: "capture m" unfolding leftmost_capture_def by blast
  from leftmost_find_submatch[OF assms] c show ?thesis
    by (simp add: parseAvailableSeats_def Atoi_capture)
qed

lemma tick_nonpositive:
  "parseAvailableSeats b = Inr n \<Longrightarrow> n \<le> 0 \<Longrightarrow>
     tick_body w (Body b) res = (Running, [EvCheck (w_chan w) (w_crn w), EvHttpPost (w_crn w)])"
  by (simp add: tick_body_def)

lemma five_parse: "parseAvailableSeats (seats_prefix @ ''5'' @ seats_suffix) = Inr 5"
  by (simp add: parseAvailableSeats_def seats_prefix_def seats_suffix_def match_here_def
        is_digit_def Atoi_def digits_val_def intSize_def)

lemma zero_parse: "parseAvailableSeats (seats_prefix @ ''0'' @ seats_suffix) = Inr 0"
  by (simp add: parseAvailableSeats_def seats_prefix_def seats_suffix_def match_here_def
        is_digit_def Atoi_def digits_val_def intSize_def)

text \<open>
  C10, as stated: \<open>parseAvailableSeats\<close> returns an error if and only if the text does
  not contain the pattern. A text that contains the pattern with a number of twenty digits
  is refused by \<open>strconv.Atoi\<close>, whose error line 135 returns.
\<close>

theorem parseAvailableSeats_error_iff_counterexample:
  "has_pattern (seats_prefix @ ''99999999999999999999'' @ seats_suffix) \<and>
   parseAvailableSeats (seats_prefix @ ''99999999999999999999'' @ seats_suffix)
     = Inl (AtoiRange ''99999999999999999999'')"
proof
  have "capture ''99999999999999999999''"
    unfolding capture_def
    by (intro exI[of _ "[]"] exI[of _ "''99999999999999999999''"]) (simp add: is_digit_def)
  then show "has_pattern (seats_prefix @ ''99999999999999999999'' @ seats_suffix)"
    unfolding has_pattern_def
    by (intro exI[of _ "[]"] exI[of _ "''99999999999999999999''"]) simp
  show "parseAvailableSeats (seats_prefix @ ''99999999999999999999'' @ seats_suffix)
     = Inl (AtoiRange ''99999999999999999999'')"
    by (simp add: parseAvailableSeats_def seats_prefix_def seats_suffix_def match_here_def
        is_digit_def Atoi_def digits_val_def intSize_def)
qed

text \<open>
  C10, amended: the error is \<open>HtmlNoMatch\<close> exactly when the text does not contain the
  pattern. When it does, there is a leftmost match, and the capture of the leftmost match is
  what is converted: the result is its integer when that fits \<open>int\<close> and the range error
  of \<open>strconv.Atoi\<close> otherwise. The integer may be negative; a count that is not positive
  is no error and the tick that reads it notifies nobody and leaves the watcher running.
\<close>

theorem parseAvailableSeats_result:
  "(parseAvailableSeats s = Inl HtmlNoMatch \<longleftrightarrow> \<not> has_pattern s) \<and>
   (has_pattern s \<longrightarrow> (\<exists>m. leftmost_capture s m)) \<and>
   (\<forall>m. leftmost_capture s m \<longrightarrow>
      parseAvailableSeats s =
        (if fits_int (capture_val m) then Inr (capture_val m) else Inl (AtoiRange m))) \<and>
   (\<forall>n. parseAvailableSeats s = Inr n \<and> n \<le> 0 \<longrightarrow>
      tick_body w (Body s) res = (Running, [EvCheck (w_chan w) (w_crn w), EvHttpPost (w_crn w)]))"
  using parse_no_match[of s] has_pattern_leftmost[of s] parse_leftmost[of s]
    tick_nonpositive[of s _ w res] by blast

lemma two_matches:
  "find_submatch (seats_prefix @ ''12'' @ seats_suffix @ seats_prefix @ ''-3'' @ seats_suffix)
     = Some ''12''"
  by (simp add: seats_prefix_def seats_suffix_def match_here_def is_digit_def)

lemma neg_first:
  "find_submatch (seats_prefix @ ''-3'' @ seats_suffix @ seats_prefix @ ''12'' @ seats_suffix)
     = Some ''-3''"
  by (simp add: seats_prefix_def seats_suffix_def match_here_def is_digit_def)

theorem parseAvailableSeats_result_witness:
  "leftmost_capture
     (seats_prefix @ ''12'' @ seats_suffix @ seats_prefix @ ''-3'' @ seats_suffix) ''12'' \<and>
   parseAvailableSeats
     (seats_prefix @ ''12'' @ seats_suffix @ seats_prefix @ ''-3'' @ seats_suffix) = Inr 12 \<and>
   leftmost_capture
     (seats_prefix @ ''-3'' @ seats_suffix @ seats_prefix @ ''12'' @ seats_suffix) ''-3'' \<and>
   parseAvailableSeats
     (seats_prefix @ ''-3'' @ seats_suffix @ seats_prefix @ ''12'' @ seats_suffix) = Inr (- 3) \<and>
   tick_body \<lparr>w_email = ''a@b'', w_crn = ''12345'', w_chan = 0, w_status = Running\<rparr>
     (Body (seats_prefix @ ''-3'' @ seats_suffix @ seats_prefix @ ''12'' @ seats_suffix)) SmtpOk
     = (Running, [EvCheck 0 ''12345'', EvHttpPost ''12345''])"
proof -
  let ?a = "seats_prefix @ ''12'' @ seats_suffix @ seats_prefix @ ''-3'' @ seats_suffix"
  let ?b = "seats_prefix @ ''-3'' @ seats_suffix @ seats_prefix @ ''12'' @ seats_suffix"
  let ?w = "\<lparr>w_email = ''a@b'', w_crn = ''12345'', w_chan = 0, w_status = Running\<rparr>"
  have la: "leftmost_capture ?a ''12''" by (rule find_submatch_leftmost[OF two_matches])
  have lb: "leftmost_capture ?b ''-3''" by (rule find_submatch_leftmost[OF neg_first])
  have va: "capture_val ''12'' = 12" "fits_int 12"
    by (simp_all add: capture_val_def digits_val_def fits_int_def intSize_def)
  have vb: "capture_val ''-3'' = - 3" "fits_int (- 3)"
    by (simp_all add: capture_val_def digits_val_def fits_int_def intSize_def)
  from parseAvailableSeats_result[of ?a ?w SmtpOk] la va
  have pa: "parseAvailableSeats ?a = Inr 12" by simp
  from parseAvailableSeats_result[of ?b ?w SmtpOk] lb vb
  have pb: "parseAvailableSeats ?b = Inr (- 3)" by simp
  from parseAvailableSeats_result[of ?b ?w SmtpOk] pb
  have tb: "tick_body ?w (Body ?b) SmtpOk = (Running, [EvCheck 0 ''12345'', EvHttpPost ''12345''])"
    by simp
  from la pa lb pb tb show ?thesis by blast
qed

section \<open>The handlers, case by case\<close>

lemma start_Started:
  assumes "startCourseCheckHandler email crn s = (Returned (Started email), s1)"
  shows "email \<noteq> [] \<and> crn \<noteq> [] \<and> \<not> mux_held s \<and> subscriptions s email = None \<and>
     s1 = s\<lparr>subscriptions := (subscriptions s)(email \<mapsto> next_chan s),
            next_chan := Suc (next_chan s),
            goroutines := goroutines s @
              [\<lparr>w_email = email, w_crn = crn, w_chan = next_chan s, w_status = Running\<rparr>],
            events := events s @
              [EvLock, EvMapLookup email, EvMakeChan (next_chan s), EvMapInsert email (next_chan s),
               EvUnlock, EvGo (next_chan s), EvRespond (Started email)]\<rparr>"
  using assms
  by (auto simp: startCourseCheckHandler_def Let_def Started_def AlreadyActive_def
      EmailAndCrnRequired_def split: if_splits option.splits)

lemma start_new:
  assumes "email \<noteq> []" "crn \<noteq> []" "\<not> mux_held s" "subscriptions s email = None"
  shows "fst (startCourseCheckHandler email crn s) = Returned (Started email)"
  using assms by (simp add: startCourseCheckHandler_def Let_def)

lemma start_registered:
  assumes "email \<noteq> []" "crn \<noteq> []" "\<not> mux_held s" "subscriptions s email = Some c"
  shows "startCourseCheckHandler email crn s =
    (Returned AlreadyActive, emit [EvLock, EvMapLookup email, EvUnlock, EvRespond AlreadyActive] s)"
  using assms by (simp add: startCourseCheckHandler_def)

lemma stop_success:
  assumes "email \<noteq> []" "\<not> mux_held s" "subscriptions s email = Some c"
    "c \<notin> closed_chans s" "list_ex (at_select c) (goroutines s)"
  shows "stopCourseCheckHandler email s =
    (Returned (Stopped email),
     s\<lparr>subscriptions := (subscriptions s)(email := None),
       closed_chans := insert c (closed_chans s),
       goroutines := map (\<lambda>w. if at_select c w then w\<lparr>w_status := Terminated\<rparr> else w) (goroutines s),
       events := events s @ [EvLock, EvMapLookup email, EvChanSend c] @
         concat (map (\<lambda>w. snd (stop_case w)) (filter (at_select c) (goroutines s))) @
         [EvChanClose c, EvMapDelete email, EvUnlock, EvRespond (Stopped email)]\<rparr>)"
  using assms by (simp add: stopCourseCheckHandler_def stop_case_def)

lemma stop_stuck:
  assumes "email \<noteq> []" "\<not> mux_held s" "subscriptions s email = Some c"
    "c \<notin> closed_chans s" "\<not> list_ex (at_select c) (goroutines s)"
  shows "stopCourseCheckHandler email s =
    (Blocked, (emit [EvLock, EvMapLookup email, EvChanSend c] s)\<lparr>mux_held := True\<rparr>)"
  using assms by (simp add: stopCourseCheckHandler_def)

lemma stop_absent:
  assumes "email \<noteq> []" "\<not> mux_held s" "subscriptions s email = None"
  shows "stopCourseCheckHandler email s =
    (Returned NotFound, emit [EvLock, EvMapLookup email, EvUnlock, EvRespond NotFound] s)"
  using assms by (simp add: stopCourseCheckHandler_def)

lemma stop_Stopped:
  assumes "stopCourseCheckHandler K s = (Returned (Stopped K), s')"
  shows "\<exists>c. K \<noteq> [] \<and> \<not> mux_held s \<and> subscriptions s K = Some c \<and> c \<notin> closed_chans s \<and>
           list_ex (at_select c) (goroutines s)"
  using assms
  by (auto simp: stopCourseCheckHandler_def Stopped_def NotFound_def EmailRequired_def
      split: if_splits option.splits)

text \<open>
  No handler that returns leaves the mutex held, and a mutex that is held is never released.
\<close>

lemma start_mutex: "mux_held (snd (startCourseCheckHandler K t s)) = mux_held s"
  by (simp add: startCourseCheckHandler_def emit_def Let_def split: option.splits)

lemma stop_mutex:
  "fst (stopCourseCheckHandler K s) = Returned r \<Longrightarrow>
     mux_held (snd (stopCourseCheckHandler K s)) = mux_held s"
  by (auto simp: stopCourseCheckHandler_def emit_def split: option.splits if_splits)

lemma tick_mutex: "mux_held (tick c f res s) = mux_held s"
  by (simp add: tick_def)

lemma mux_held_step: "mux_held s \<Longrightarrow> mux_held (step i s)"
  by (cases i) (simp_all add: startCourseCheckHandler_def stopCourseCheckHandler_def emit_def tick_def)

lemma mux_held_run: "mux_held s \<Longrightarrow> mux_held (run ins s)"
  by (induction ins arbitrary: s) (simp_all add: mux_held_step)

lemma events_step: "\<exists>es. events (step i s) = events s @ es"
  by (cases i)
    (auto simp: startCourseCheckHandler_def stopCourseCheckHandler_def tick_def emit_def Let_def
      split: option.splits)

lemma events_run: "\<exists>es. events (run ins s) = events s @ es"
proof (induction ins arbitrary: s)
  case Nil
  then show ?case by simp
next
  case (Cons i ins)
  from events_step[of i s] obtain e1 where "events (step i s) = events s @ e1" by blast
  moreover from Cons[of "step i s"] obtain e2 where "events (run ins (step i s)) = events (step i s) @ e2"
    by blast
  ultimately show ?case by simp
qed

section \<open>The invariant of the reachable states\<close>

lemma inv_init: "inv init"
  by (simp add: inv_def init_def)

lemma inv_emit: "inv (emit es s) = inv s"
  by (simp add: inv_def emit_def)

lemma inv_mux: "inv (s\<lparr>mux_held := b\<rparr>) = inv s"
  by (simp add: inv_def)

lemma inv_inj:
  assumes "inv s" "subscriptions s k = Some c" "subscriptions s k' = Some c"
  shows "k = k'"
proof -
  from assms obtain w where w: "w \<in> set (goroutines s)" "w_chan w = c" "w_email w = k"
    unfolding inv_def by blast
  from assms obtain w' where w': "w' \<in> set (goroutines s)" "w_chan w' = c" "w_email w' = k'"
    unfolding inv_def by blast
  from assms(1) have "distinct (map w_chan (goroutines s))" by (simp add: inv_def)
  then have "inj_on w_chan (set (goroutines s))" by (simp add: distinct_map)
  with w w' have "w = w'" by (auto dest: inj_onD)
  with w w' show ?thesis by simp
qed

lemma inv_start:
  assumes "inv s"
  shows "inv (snd (startCourseCheckHandler email crn s))"
proof (cases "email = [] \<or> crn = [] \<or> mux_held s")
  case True
  with assms show ?thesis by (auto simp: startCourseCheckHandler_def inv_emit)
next
  case False
  show ?thesis
  proof (cases "subscriptions s email")
    case (Some c)
    with False assms show ?thesis by (simp add: startCourseCheckHandler_def inv_emit)
  next
    case None
    from assms have d: "distinct (map w_chan (goroutines s))"
      and b: "\<forall>w \<in> set (goroutines s). w_chan w < next_chan s"
      and c: "\<forall>c \<in> closed_chans s. c < next_chan s"
      and r: "\<forall>k c. subscriptions s k = Some c \<longrightarrow>
        c \<notin> closed_chans s \<and> (\<exists>w \<in> set (goroutines s). w_chan w = c \<and> w_email w = k)"
      and l: "\<forall>w \<in> set (goroutines s). w_status w = Running \<longrightarrow>
        subscriptions s (w_email w) = Some (w_chan w)"
      by (simp_all add: inv_def)
    let ?s = "snd (startCourseCheckHandler email crn s)"
    have g: "goroutines ?s = goroutines s @
        [\<lparr>w_email = email, w_crn = crn, w_chan = next_chan s, w_status = Running\<rparr>]"
      and n: "next_chan ?s = Suc (next_chan s)"
      and cl: "closed_chans ?s = closed_chans s"
      and su: "subscriptions ?s = (subscriptions s)(email \<mapsto> next_chan s)"
      using False None by (simp_all add: startCourseCheckHandler_def Let_def)
    have 1: "distinct (map w_chan (goroutines ?s))" using d b by (auto simp: g)
    have 2: "\<forall>w \<in> set (goroutines ?s). w_chan w < next_chan ?s"
      using b by (auto simp: g n less_Suc_eq)
    have 3: "\<forall>c \<in> closed_chans ?s. c < next_chan ?s" using c by (auto simp: cl n less_Suc_eq)
    have 4: "\<forall>k c. subscriptions ?s k = Some c \<longrightarrow>
        c \<notin> closed_chans ?s \<and> (\<exists>w \<in> set (goroutines ?s). w_chan w = c \<and> w_email w = k)"
      using r c by (auto simp: su cl g)
    have 5: "\<forall>w \<in> set (goroutines ?s). w_status w = Running \<longrightarrow>
        subscriptions ?s (w_email w) = Some (w_chan w)"
      using l None by (auto simp: su g)
    from 1 2 3 4 5 show ?thesis unfolding inv_def by blast
  qed
qed

lemma inv_tick:
  assumes "inv s"
  shows "inv (tick ch f res s)"
proof -
  let ?s = "tick ch f res s"
  let ?f = "\<lambda>w. if at_select ch w then w\<lparr>w_status := fst (tick_body w f res)\<rparr> else w"
  have g: "goroutines ?s = map ?f (goroutines s)" by (simp add: tick_def)
  have ch: "map w_chan (map ?f (goroutines s)) = map w_chan (goroutines s)" by (simp add: comp_def)
  have st: "\<And>w. w_status (?f w) = Running \<Longrightarrow> w_status w = Running"
    by (simp add: at_select_def split: if_splits)
  have sel: "\<And>w. w_chan (?f w) = w_chan w \<and> w_email (?f w) = w_email w" by simp
  have o: "next_chan ?s = next_chan s" "closed_chans ?s = closed_chans s"
    "subscriptions ?s = subscriptions s" by (simp_all add: tick_def)
  from assms have d: "distinct (map w_chan (goroutines s))"
      and b: "\<forall>w \<in> set (goroutines s). w_chan w < next_chan s"
      and c: "\<forall>c \<in> closed_chans s. c < next_chan s"
      and r: "\<forall>k c. subscriptions s k = Some c \<longrightarrow>
        c \<notin> closed_chans s \<and> (\<exists>w \<in> set (goroutines s). w_chan w = c \<and> w_email w = k)"
      and l: "\<forall>w \<in> set (goroutines s). w_status w = Running \<longrightarrow>
        subscriptions s (w_email w) = Some (w_chan w)"
      by (simp_all add: inv_def)
  have 1: "distinct (map w_chan (goroutines ?s))" using d by (simp only: g ch)
  have 2: "\<forall>w \<in> set (goroutines ?s). w_chan w < next_chan ?s"
    using b unfolding g o by auto
  have 3: "\<forall>c \<in> closed_chans ?s. c < next_chan ?s" using c by (simp add: o)
  have 4: "\<forall>k c. subscriptions ?s k = Some c \<longrightarrow>
        c \<notin> closed_chans ?s \<and> (\<exists>w \<in> set (goroutines ?s). w_chan w = c \<and> w_email w = k)"
  proof (intro allI impI)
    fix k c assume "subscriptions ?s k = Some c"
    with r o obtain w where "c \<notin> closed_chans s" "w \<in> set (goroutines s)" "w_chan w = c" "w_email w = k"
      by auto
    then have "c \<notin> closed_chans ?s" "?f w \<in> set (goroutines ?s)" "w_chan (?f w) = c" "w_email (?f w) = k"
      unfolding g o by auto
    then show "c \<notin> closed_chans ?s \<and> (\<exists>w \<in> set (goroutines ?s). w_chan w = c \<and> w_email w = k)"
      by blast
  qed
  have 5: "\<forall>w \<in> set (goroutines ?s). w_status w = Running \<longrightarrow>
        subscriptions ?s (w_email w) = Some (w_chan w)"
  proof (intro ballI impI)
    fix w' assume "w' \<in> set (goroutines ?s)" and run: "w_status w' = Running"
    then obtain w where w: "w \<in> set (goroutines s)" "w' = ?f w" unfolding g by auto
    with run st have "w_status w = Running" by blast
    with l w have "subscriptions s (w_email w) = Some (w_chan w)" by blast
    with w sel show "subscriptions ?s (w_email w') = Some (w_chan w')" by (simp add: o)
  qed
  from 1 2 3 4 5 show ?thesis unfolding inv_def by blast
qed

lemma inv_stop:
  assumes "inv s"
  shows "inv (snd (stopCourseCheckHandler email s))"
proof (cases "email = [] \<or> mux_held s")
  case True
  with assms show ?thesis by (auto simp: stopCourseCheckHandler_def inv_emit)
next
  case False
  show ?thesis
  proof (cases "subscriptions s email")
    case None
    with False assms show ?thesis by (simp add: stop_absent inv_emit)
  next
    case (Some c)
    from assms have d: "distinct (map w_chan (goroutines s))"
      and b: "\<forall>w \<in> set (goroutines s). w_chan w < next_chan s"
      and cb: "\<forall>c \<in> closed_chans s. c < next_chan s"
      and r: "\<forall>k c. subscriptions s k = Some c \<longrightarrow>
        c \<notin> closed_chans s \<and> (\<exists>w \<in> set (goroutines s). w_chan w = c \<and> w_email w = k)"
      and l: "\<forall>w \<in> set (goroutines s). w_status w = Running \<longrightarrow>
        subscriptions s (w_email w) = Some (w_chan w)"
      by (simp_all add: inv_def)
    from r Some have nc: "c \<notin> closed_chans s" by blast
    from r Some b have lt: "c < next_chan s" by blast
    show ?thesis
    proof (cases "list_ex (at_select c) (goroutines s)")
      case False
      with \<open>\<not> (email = [] \<or> mux_held s)\<close> Some nc assms show ?thesis
        by (simp add: stop_stuck inv_emit inv_mux)
    next
      case True
      let ?f = "\<lambda>w. if at_select c w then w\<lparr>w_status := Terminated\<rparr> else w"
      let ?s = "snd (stopCourseCheckHandler email s)"
      from True \<open>\<not> (email = [] \<or> mux_held s)\<close> Some nc
      have g: "goroutines ?s = map ?f (goroutines s)"
        and n: "next_chan ?s = next_chan s"
        and cl: "closed_chans ?s = insert c (closed_chans s)"
        and su: "subscriptions ?s = (subscriptions s)(email := None)"
        by (simp_all add: stop_success)
      have ch: "map w_chan (map ?f (goroutines s)) = map w_chan (goroutines s)"
        by (simp add: comp_def)
      have sel: "\<And>w. w_chan (?f w) = w_chan w \<and> w_email (?f w) = w_email w" by simp
      have 1: "distinct (map w_chan (goroutines ?s))" using d by (simp only: g ch)
      have 2: "\<forall>w \<in> set (goroutines ?s). w_chan w < next_chan ?s"
        using b unfolding g n by auto
      have 3: "\<forall>c \<in> closed_chans ?s. c < next_chan ?s" using cb lt by (simp add: cl n)
      have 4: "\<forall>k c. subscriptions ?s k = Some c \<longrightarrow>
        c \<notin> closed_chans ?s \<and> (\<exists>w \<in> set (goroutines ?s). w_chan w = c \<and> w_email w = k)"
      proof (intro allI impI)
        fix k c' assume a: "subscriptions ?s k = Some c'"
        then have ke: "k \<noteq> email" and sk: "subscriptions s k = Some c'"
          by (auto simp: su split: if_splits)
        with r obtain w where w: "c' \<notin> closed_chans s" "w \<in> set (goroutines s)"
          "w_chan w = c'" "w_email w = k" by blast
        have "c' \<noteq> c" using inv_inj[OF assms sk] Some ke by auto
        with w have "c' \<notin> closed_chans ?s" "?f w \<in> set (goroutines ?s)"
          "w_chan (?f w) = c'" "w_email (?f w) = k"
          unfolding g cl by auto
        then show "c' \<notin> closed_chans ?s \<and> (\<exists>w \<in> set (goroutines ?s). w_chan w = c' \<and> w_email w = k)"
          by blast
      qed
      have 5: "\<forall>w \<in> set (goroutines ?s). w_status w = Running \<longrightarrow>
        subscriptions ?s (w_email w) = Some (w_chan w)"
      proof (intro ballI impI)
        fix w' assume "w' \<in> set (goroutines ?s)" and run: "w_status w' = Running"
        then obtain w where w: "w \<in> set (goroutines s)" "w' = ?f w" unfolding g by auto
        with run have ns: "\<not> at_select c w" and rw: "w_status w = Running" and e: "w' = w"
          by (auto split: if_splits)
        with l w have sw: "subscriptions s (w_email w) = Some (w_chan w)" by blast
        from ns rw have "w_chan w \<noteq> c" by (simp add: at_select_def)
        with sw Some have "w_email w \<noteq> email" by auto
        with sw e show "subscriptions ?s (w_email w') = Some (w_chan w')" by (simp add: su)
      qed
      from 1 2 3 4 5 show ?thesis unfolding inv_def by blast
    qed
  qed
qed

lemma inv_step: "inv s \<Longrightarrow> inv (step i s)"
  by (cases i) (simp_all add: inv_start inv_stop inv_tick)

lemma reachable_inv: "reachable s \<Longrightarrow> inv s"
  by (induction rule: reachable.induct) (simp_all add: inv_init inv_step)

lemma reachable_run: "reachable s \<Longrightarrow> reachable (run ins s)"
  by (induction ins arbitrary: s) (simp_all add: reachable_step)

lemma filter_unique:
  "distinct (map f xs) \<Longrightarrow> x \<in> set xs \<Longrightarrow>
     filter (\<lambda>y. f y = f x \<and> P y) xs = (if P x then [x] else [])"
proof (induction xs)
  case Nil
  then show ?case by simp
next
  case (Cons a xs)
  show ?case
  proof (cases "a = x")
    case True
    from Cons.prems True have "f x \<notin> f ` set xs" by simp
    then have "\<forall>y \<in> set xs. f y \<noteq> f x" by (metis imageI)
    then have "filter (\<lambda>y. f y = f x \<and> P y) xs = []" by (auto simp: filter_empty_conv)
    with True show ?thesis by simp
  next
    case False
    with Cons.prems have x: "x \<in> set xs" and d: "distinct (map f xs)" by auto
    from Cons.prems x have "f a \<noteq> f x" by auto
    with Cons.IH[OF d x] show ?thesis by simp
  qed
qed

text \<open>A key never has two live watchers.\<close>

lemma at_most_one_live:
  assumes "reachable s"
  shows "length (live_for K s) \<le> 1"
proof (cases "live_for K s")
  case Nil
  then show ?thesis by simp
next
  case (Cons w ws)
  from reachable_inv[OF assms] have d: "distinct (map w_chan (goroutines s))"
    and l: "\<forall>w \<in> set (goroutines s). w_status w = Running \<longrightarrow>
        subscriptions s (w_email w) = Some (w_chan w)"
    by (simp_all add: inv_def)
  from Cons have "w \<in> set (live_for K s)" by simp
  then have w: "w \<in> set (goroutines s)" "w_email w = K" "w_status w = Running"
    by (simp_all add: live_for_def)
  with l have sw: "subscriptions s K = Some (w_chan w)" by auto
  have "live_for K s = filter (\<lambda>y. w_chan y = w_chan w \<and> (w_email y = K \<and> w_status y = Running)) (goroutines s)"
    unfolding live_for_def using l sw by (intro filter_cong) auto
  also have "\<dots> = [w]" using filter_unique[OF d w(1), of "\<lambda>y. w_email y = K \<and> w_status y = Running"] w by simp
  finally show ?thesis by simp
qed

lemma select_unique:
  assumes "inv s" "w \<in> set (goroutines s)" "w_status w = Running"
  shows "filter (at_select (w_chan w)) (goroutines s) = [w]"
proof -
  from assms(1) have d: "distinct (map w_chan (goroutines s))" by (simp add: inv_def)
  have "filter (at_select (w_chan w)) (goroutines s)
      = filter (\<lambda>y. w_chan y = w_chan w \<and> w_status y = Running) (goroutines s)"
    by (simp add: at_select_def[abs_def])
  also have "\<dots> = [w]" using filter_unique[OF d assms(2), of "\<lambda>y. w_status y = Running"] assms(3) by simp
  finally show ?thesis .
qed

lemma ann_started:
  "startCourseCheckHandler ''ann@neu.edu'' ''12345'' init =
     (Returned (Started ''ann@neu.edu''),
      \<lparr>subscriptions = [''ann@neu.edu'' \<mapsto> 0], mux_held = False, next_chan = Suc 0,
        closed_chans = {},
        goroutines = [\<lparr>w_email = ''ann@neu.edu'', w_crn = ''12345'', w_chan = 0, w_status = Running\<rparr>],
        events = [EvLock, EvMapLookup ''ann@neu.edu'', EvMakeChan 0, EvMapInsert ''ann@neu.edu'' 0,
                  EvUnlock, EvGo 0, EvRespond (Started ''ann@neu.edu'')]\<rparr>)"
  by (simp add: startCourseCheckHandler_def init_def)

lemma ann_reachable: "reachable (snd (startCourseCheckHandler ''ann@neu.edu'' ''12345'' init))"
  using reachable_step[OF reachable_init, of "Start ''ann@neu.edu'' ''12345''"] by simp

lemma ann_stopped:
  "fst (stopCourseCheckHandler ''ann@neu.edu''
      (snd (startCourseCheckHandler ''ann@neu.edu'' ''12345'' init)))
    = Returned (Stopped ''ann@neu.edu'')"
  by (simp add: ann_started stopCourseCheckHandler_def at_select_def)

lemma ann_watcher:
  "\<lparr>w_email = ''ann@neu.edu'', w_crn = ''12345'', w_chan = 0, w_status = Running\<rparr>
     \<in> set (goroutines (snd (startCourseCheckHandler ''ann@neu.edu'' ''12345'' init)))"
  by (simp add: ann_started)

lemma bob_reachable: "reachable (snd (startCourseCheckHandler ''bob@neu.edu'' ''31415'' init))"
  using reachable_step[OF reachable_init, of "Start ''bob@neu.edu'' ''31415''"] by simp

section \<open>Starting and stopping a watch\<close>

text \<open>
  C3: when \<open>Start(K, t)\<close> has returned \<open>Started\<close>, the \<open>Stop(K)\<close> that follows returns
  \<open>Stopped\<close> and leaves \<open>K\<close> unregistered; a further \<open>Stop(K)\<close> returns \<open>NotFound\<close>, and
  a \<open>Start(K, t')\<close> returns \<open>Started\<close>, right after the first \<open>Stop\<close> as well as after the
  second. The target \<open>t'\<close> is not empty, as line 38 asks.
\<close>

theorem start_stop_round_trip:
  assumes "reachable s"
    and "startCourseCheckHandler K t s = (Returned (Started K), s1)"
    and "t' \<noteq> []"
  shows "\<exists>s2. stopCourseCheckHandler K s1 = (Returned (Stopped K), s2) \<and>
           subscriptions s2 K = None \<and>
           fst (stopCourseCheckHandler K s2) = Returned NotFound \<and>
           fst (startCourseCheckHandler K t' s2) = Returned (Started K) \<and>
           fst (startCourseCheckHandler K t' (snd (stopCourseCheckHandler K s2)))
             = Returned (Started K)"
proof -
  from start_Started[OF assms(2)]
  have K: "K \<noteq> []" and m: "\<not> mux_held s" and n: "subscriptions s K = None"
    and s1: "s1 = s\<lparr>subscriptions := (subscriptions s)(K \<mapsto> next_chan s),
            next_chan := Suc (next_chan s),
            goroutines := goroutines s @
              [\<lparr>w_email = K, w_crn = t, w_chan = next_chan s, w_status = Running\<rparr>],
            events := events s @
              [EvLock, EvMapLookup K, EvMakeChan (next_chan s), EvMapInsert K (next_chan s),
               EvUnlock, EvGo (next_chan s), EvRespond (Started K)]\<rparr>"
    by blast+
  from reachable_inv[OF assms(1)] have "\<forall>c \<in> closed_chans s. c < next_chan s"
    by (simp add: inv_def)
  then have nc: "next_chan s \<notin> closed_chans s1" by (auto simp: s1)
  have m1: "\<not> mux_held s1" using m by (simp add: s1)
  have su: "subscriptions s1 K = Some (next_chan s)" by (simp add: s1)
  have rc: "list_ex (at_select (next_chan s)) (goroutines s1)"
    by (simp add: s1 at_select_def)
  define s2 where "s2 = snd (stopCourseCheckHandler K s1)"
  have st: "stopCourseCheckHandler K s1 = (Returned (Stopped K), s2)"
    unfolding s2_def by (simp add: stop_success[OF K m1 su nc rc])
  have m2: "\<not> mux_held s2" and n2: "subscriptions s2 K = None"
    unfolding s2_def using m1 by (simp_all add: stop_success[OF K m1 su nc rc])
  have nf: "stopCourseCheckHandler K s2 =
      (Returned NotFound, emit [EvLock, EvMapLookup K, EvUnlock, EvRespond NotFound] s2)"
    by (rule stop_absent[OF K m2 n2])
  have a: "fst (startCourseCheckHandler K t' s2) = Returned (Started K)"
    by (rule start_new[OF K assms(3) m2 n2])
  have b: "fst (startCourseCheckHandler K t' (snd (stopCourseCheckHandler K s2)))
             = Returned (Started K)"
    using m2 n2 by (simp add: nf start_new[OF K assms(3)] emit_def)
  from st n2 nf a b show ?thesis by simp
qed

text \<open>
  The round trip of a second subscriber, after a first one has been registered.
\<close>

theorem start_stop_round_trip_witness:
  "\<exists>s2. stopCourseCheckHandler ''ann@neu.edu''
           (snd (startCourseCheckHandler ''ann@neu.edu'' ''12345''
              (snd (startCourseCheckHandler ''bob@neu.edu'' ''31415'' init))))
         = (Returned (Stopped ''ann@neu.edu''), s2) \<and>
       subscriptions s2 ''ann@neu.edu'' = None \<and>
       fst (stopCourseCheckHandler ''ann@neu.edu'' s2) = Returned NotFound \<and>
       fst (startCourseCheckHandler ''ann@neu.edu'' ''67890'' s2) = Returned (Started ''ann@neu.edu'') \<and>
       fst (startCourseCheckHandler ''ann@neu.edu'' ''67890''
              (snd (stopCourseCheckHandler ''ann@neu.edu'' s2)))
         = Returned (Started ''ann@neu.edu'')"
proof -
  let ?s = "snd (startCourseCheckHandler ''bob@neu.edu'' ''31415'' init)"
  have "fst (startCourseCheckHandler ''ann@neu.edu'' ''12345'' ?s) = Returned (Started ''ann@neu.edu'')"
    by (simp add: startCourseCheckHandler_def init_def)
  then have e: "startCourseCheckHandler ''ann@neu.edu'' ''12345'' ?s
      = (Returned (Started ''ann@neu.edu''), snd (startCourseCheckHandler ''ann@neu.edu'' ''12345'' ?s))"
    by (metis prod.collapse)
  have ne: "''67890'' \<noteq> []" by simp
  from start_stop_round_trip[OF bob_reachable e ne] show ?thesis .
qed

text \<open>
  The same holds later on, for as long as the watcher of the key is running and no request
  is stuck inside the critical section.
\<close>

lemma stop_live_watch:
  assumes "reachable s" and "\<not> mux_held s" and "K \<noteq> []" and "live_for K s \<noteq> []"
  shows "\<exists>s2. stopCourseCheckHandler K s = (Returned (Stopped K), s2) \<and>
           subscriptions s2 K = None \<and> live_for K s2 = [] \<and> \<not> mux_held s2 \<and>
           fst (stopCourseCheckHandler K s2) = Returned NotFound"
proof -
  have i: "inv s" by (rule reachable_inv[OF assms(1)])
  from assms(4) obtain w where w: "w \<in> set (goroutines s)" "w_email w = K" "w_status w = Running"
    unfolding live_for_def by (auto simp: filter_empty_conv)
  with i have su: "subscriptions s K = Some (w_chan w)" unfolding inv_def by blast
  with i have nc: "w_chan w \<notin> closed_chans s" unfolding inv_def by blast
  from w have rc: "list_ex (at_select (w_chan w)) (goroutines s)"
    by (auto simp: list_ex_iff at_select_def)
  define s2 where "s2 = snd (stopCourseCheckHandler K s)"
  have st: "stopCourseCheckHandler K s = (Returned (Stopped K), s2)"
    unfolding s2_def by (simp add: stop_success[OF assms(3,2) su nc rc])
  have m2: "\<not> mux_held s2" and n2: "subscriptions s2 K = None"
    unfolding s2_def using assms(2) by (simp_all add: stop_success[OF assms(3,2) su nc rc])
  have r2: "reachable s2" unfolding s2_def using reachable_step[OF assms(1), of "Stop K"] by simp
  have l2: "live_for K s2 = []"
  proof (rule ccontr)
    assume "live_for K s2 \<noteq> []"
    then obtain x where "x \<in> set (goroutines s2)" "w_email x = K" "w_status x = Running"
      unfolding live_for_def by (auto simp: filter_empty_conv)
    with reachable_inv[OF r2] have "subscriptions s2 K = Some (w_chan x)" unfolding inv_def by blast
    with n2 show False by simp
  qed
  have "fst (stopCourseCheckHandler K s2) = Returned NotFound"
    by (simp add: stop_absent[OF assms(3) m2 n2])
  with st n2 l2 m2 show ?thesis by blast
qed

text \<open>A key that no request has started has no entry.\<close>

lemma never_started:
  "subscriptions s K = None \<Longrightarrow> \<forall>t. Start K t \<notin> set ins \<Longrightarrow> subscriptions (run ins s) K = None"
proof (induction ins arbitrary: s)
  case Nil
  then show ?case by simp
next
  case (Cons i ins)
  have "subscriptions (step i s) K = None"
  proof (cases i)
    case (Start e c)
    with Cons.prems have "e \<noteq> K" by auto
    with Cons.prems(1) Start show ?thesis
      by (simp add: startCourseCheckHandler_def emit_def Let_def split: option.splits)
  next
    case (Stop e)
    with Cons.prems(1) show ?thesis
      by (simp add: stopCourseCheckHandler_def emit_def split: option.splits)
  next
    case (Tick c f res)
    with Cons.prems(1) show ?thesis by (simp add: tick_def)
  qed
  with Cons show ?case by simp
qed

text \<open>
  While no request is stuck inside the critical section, \<open>Stop(K)\<close> for a key \<open>K\<close> that
  has no entry in the registry returns \<open>NotFound\<close>; it appends its own events to the trace
  and changes nothing else: the map, the goroutines, the channels and the mutex are as before.
\<close>

lemma stop_unknown_key:
  assumes "K \<noteq> []" and "\<not> mux_held s" and "subscriptions s K = None"
  shows "fst (stopCourseCheckHandler K s) = Returned NotFound \<and>
         snd (stopCourseCheckHandler K s) = emit [EvLock, EvMapLookup K, EvUnlock, EvRespond NotFound] s \<and>
         subscriptions (snd (stopCourseCheckHandler K s)) = subscriptions s \<and>
         goroutines (snd (stopCourseCheckHandler K s)) = goroutines s \<and>
         closed_chans (snd (stopCourseCheckHandler K s)) = closed_chans s \<and>
         next_chan (snd (stopCourseCheckHandler K s)) = next_chan s \<and>
         mux_held (snd (stopCourseCheckHandler K s)) = mux_held s"
  using assms by (simp add: stop_absent emit_def)

section \<open>A watcher that returns on its own\<close>

text \<open>
  The four error returns of the ticker case (lines 94, 102, 109 and 115) leave the loop
  without deleting the entry of the key, which \<open>stopCourseCheckHandler\<close> does on its
  own path (line 69). The key stays registered with no goroutine behind it: the next
  \<open>Stop\<close> waits for ever in its send, holding the mutex, and the message of line 46
  tells a \<open>Start\<close> that a check is running when none is.
\<close>

text \<open>
  Whenever a tick ends a running watcher, its key stays registered, no live watcher of the
  key is left, and the \<open>Stop\<close> that follows never returns and keeps the mutex.
\<close>

lemma failed_tick_blocks_stop:
  assumes "reachable s" and "w \<in> set (goroutines s)" and "w_status w = Running"
    and "fst (tick_body w f res) = Terminated" and "\<not> mux_held s" and "w_email w \<noteq> []"
  shows "subscriptions (tick (w_chan w) f res s) (w_email w) = Some (w_chan w) \<and>
         live_for (w_email w) (tick (w_chan w) f res s) = [] \<and>
         fst (stopCourseCheckHandler (w_email w) (tick (w_chan w) f res s)) = Blocked \<and>
         mux_held (snd (stopCourseCheckHandler (w_email w) (tick (w_chan w) f res s)))"
proof -
  let ?s = "tick (w_chan w) f res s"
  have i: "inv s" by (rule reachable_inv[OF assms(1)])
  have r: "reachable ?s" using reachable_step[OF assms(1), of "Tick (w_chan w) f res"] by simp
  have i': "inv ?s" by (rule reachable_inv[OF r])
  from i assms(2,3) have su: "subscriptions s (w_email w) = Some (w_chan w)"
    unfolding inv_def by blast
  then have 1: "subscriptions ?s (w_email w) = Some (w_chan w)" by (simp add: tick_def)
  have g: "goroutines ?s =
      map (\<lambda>x. if at_select (w_chan w) x then x\<lparr>w_status := fst (tick_body x f res)\<rparr> else x)
        (goroutines s)" by (simp add: tick_def)
  from i have d: "distinct (map w_chan (goroutines s))" by (simp add: inv_def)
  have u: "\<And>x. x \<in> set (goroutines s) \<Longrightarrow> w_chan x = w_chan w \<Longrightarrow> x = w"
    using d assms(2) by (meson distinct_map inj_onD)
  have na: "\<not> list_ex (at_select (w_chan w)) (goroutines ?s)"
  proof
    assume "list_ex (at_select (w_chan w)) (goroutines ?s)"
    then obtain x where x: "x \<in> set (goroutines s)"
      and a: "at_select (w_chan w)
        (if at_select (w_chan w) x then x\<lparr>w_status := fst (tick_body x f res)\<rparr> else x)"
      unfolding g list_ex_iff by auto
    then have c: "w_chan x = w_chan w" by (auto simp: at_select_def split: if_splits)
    with u x have "x = w" by blast
    with a assms(3,4) show False by (simp add: at_select_def)
  qed
  have 2: "live_for (w_email w) ?s = []"
  proof (rule ccontr)
    assume "live_for (w_email w) ?s \<noteq> []"
    then obtain x where x: "x \<in> set (goroutines ?s)" "w_email x = w_email w" "w_status x = Running"
      unfolding live_for_def by (auto simp: filter_empty_conv)
    with i' have "subscriptions ?s (w_email x) = Some (w_chan x)" unfolding inv_def by blast
    with 1 x have "w_chan x = w_chan w" by simp
    with x na show False by (auto simp: list_ex_iff at_select_def)
  qed
  have m: "\<not> mux_held ?s" using assms(5) by (simp add: tick_def)
  from i' 1 have nc: "w_chan w \<notin> closed_chans ?s" unfolding inv_def by blast
  have 3: "stopCourseCheckHandler (w_email w) ?s =
      (Blocked, (emit [EvLock, EvMapLookup (w_email w), EvChanSend (w_chan w)] ?s)\<lparr>mux_held := True\<rparr>)"
    by (rule stop_stuck[OF assms(6) m 1 nc na])
  from 1 2 3 show ?thesis by simp
qed

text \<open>
  C2 at a failing input. A watch is started and its first tick fails in \<open>client.Do\<close>
  (line 100): the goroutine returns and the entry of its key stays in the map. The
  \<open>Stop\<close> that follows finds the entry and blocks for ever in the send of line 67, inside
  the critical section, instead of returning \<open>NotFound\<close>; a fresh \<open>Start\<close> is answered
  \<open>AlreadyActive\<close>.
\<close>

theorem checker_failure_keeps_key_registered:
  "goroutines (run [Start ''ann@neu.edu'' ''12345'', Tick 0 (DoFailed ''timeout'') SmtpOk] init)
     = [\<lparr>w_email = ''ann@neu.edu'', w_crn = ''12345'', w_chan = 0, w_status = Terminated\<rparr>] \<and>
   subscriptions (run [Start ''ann@neu.edu'' ''12345'', Tick 0 (DoFailed ''timeout'') SmtpOk] init)
     ''ann@neu.edu'' = Some 0 \<and>
   fst (stopCourseCheckHandler ''ann@neu.edu''
     (run [Start ''ann@neu.edu'' ''12345'', Tick 0 (DoFailed ''timeout'') SmtpOk] init)) = Blocked \<and>
   mux_held (snd (stopCourseCheckHandler ''ann@neu.edu''
     (run [Start ''ann@neu.edu'' ''12345'', Tick 0 (DoFailed ''timeout'') SmtpOk] init))) \<and>
   fst (startCourseCheckHandler ''ann@neu.edu'' ''12345''
     (run [Start ''ann@neu.edu'' ''12345'', Tick 0 (DoFailed ''timeout'') SmtpOk] init))
     = Returned AlreadyActive"
  by (simp add: startCourseCheckHandler_def stopCourseCheckHandler_def tick_def tick_body_def
      init_def at_select_def emit_def)

text \<open>
  C4 at a failing input. A watch is started, its first tick fails, and the \<open>Stop\<close> for its
  key is stuck in the send of line 67 with the mutex held. A \<open>Stop\<close> for a key that was
  never started then waits for ever in \<open>Lock\<close> (line 65) instead of returning
  \<open>NotFound\<close>.
\<close>

theorem stop_unknown_key_behind_stuck_stop:
  "subscriptions
     (run [Start ''ann@neu.edu'' ''12345'', Tick 0 (DoFailed ''timeout'') SmtpOk, Stop ''ann@neu.edu'']
        init) ''carol@neu.edu'' = None \<and>
   mux_held
     (run [Start ''ann@neu.edu'' ''12345'', Tick 0 (DoFailed ''timeout'') SmtpOk, Stop ''ann@neu.edu'']
        init) \<and>
   fst (stopCourseCheckHandler ''carol@neu.edu''
     (run [Start ''ann@neu.edu'' ''12345'', Tick 0 (DoFailed ''timeout'') SmtpOk, Stop ''ann@neu.edu'']
        init)) = Blocked"
  by (simp add: startCourseCheckHandler_def stopCourseCheckHandler_def tick_def tick_body_def
      init_def at_select_def emit_def)

text \<open>
  C1 at a failing input. After the same failed tick a second \<open>Start\<close> for the key is
  answered \<open>AlreadyActive\<close> although no watcher goroutine of the key is left.
\<close>

theorem second_start_without_watcher:
  "fst (startCourseCheckHandler ''ann@neu.edu'' ''67890''
     (run [Start ''ann@neu.edu'' ''12345'', Tick 0 (DoFailed ''timeout'') SmtpOk] init))
     = Returned AlreadyActive \<and>
   live_for ''ann@neu.edu''
     (run [Start ''ann@neu.edu'' ''12345'', Tick 0 (DoFailed ''timeout'') SmtpOk] init) = []"
  by (simp add: startCourseCheckHandler_def tick_def tick_body_def
      init_def at_select_def live_for_def)

section \<open>What a tick does\<close>

lemma tick_events:
  assumes "inv s" "w \<in> set (goroutines s)" "w_status w = Running"
  shows "new_events s (tick (w_chan w) f res s) = snd (tick_body w f res)"
  by (simp add: new_events_def tick_def select_unique[OF assms])

lemma tick_status:
  assumes "w \<in> set (goroutines s)" "w_status w = Running"
  shows "w\<lparr>w_status := fst (tick_body w f res)\<rparr> \<in> set (goroutines (tick (w_chan w) f res s))"
proof -
  have "at_select (w_chan w) w" using assms by (simp add: at_select_def)
  then show ?thesis using assms(1) unfolding tick_def by (auto simp: image_iff intro!: bexI[of _ w])
qed

lemma tick_body_check:
  "\<exists>evs. snd (tick_body w f res) = EvCheck (w_chan w) (w_crn w) # evs"
  by (cases f) (auto simp: tick_body_def split: sum.splits)

text \<open>
  C5: a tick of a running watcher whose check succeeds with the count \<open>n\<close> calls
  \<open>sendEmailNotification(email, n, crn)\<close> exactly once when \<open>n > 0\<close> and not at all
  otherwise; when \<open>n \<le> 0\<close> the check is the only thing the tick does. Either way the
  watcher is still running afterwards, the one live watcher of its key.
\<close>

theorem tick_notifies_iff_positive:
  assumes "reachable s" and "w \<in> set (goroutines s)" and "w_status w = Running"
    and "parseAvailableSeats b = Inr n"
  shows "filter is_notify (new_events s (tick (w_chan w) (Body b) res s))
           = (if n > 0 then [EvNotify (w_email w) n (w_crn w)] else []) \<and>
         (n \<le> 0 \<longrightarrow>
            new_events s (tick (w_chan w) (Body b) res s)
              = [EvCheck (w_chan w) (w_crn w), EvHttpPost (w_crn w)]) \<and>
         w \<in> set (goroutines (tick (w_chan w) (Body b) res s)) \<and>
         length (live_for (w_email w) (tick (w_chan w) (Body b) res s)) = 1"
proof -
  let ?s = "tick (w_chan w) (Body b) res s"
  have tb: "tick_body w (Body b) res =
      (Running, EvCheck (w_chan w) (w_crn w) # EvHttpPost (w_crn w) #
         (if n > 0 then EvNotify (w_email w) n (w_crn w) # sendEmailNotification (w_email w) n (w_crn w) res
          else []))"
    using assms(4) by (simp add: tick_body_def)
  have ev: "new_events s ?s = snd (tick_body w (Body b) res)"
    by (rule tick_events[OF reachable_inv[OF assms(1)] assms(2,3)])
  have 1: "filter is_notify (new_events s ?s) = (if n > 0 then [EvNotify (w_email w) n (w_crn w)] else [])"
    unfolding ev tb by (cases res) (simp_all add: sendEmailNotification_def)
  have 2: "n \<le> 0 \<longrightarrow> new_events s ?s = [EvCheck (w_chan w) (w_crn w), EvHttpPost (w_crn w)]"
    unfolding ev tb by simp
  have "w\<lparr>w_status := fst (tick_body w (Body b) res)\<rparr> \<in> set (goroutines ?s)"
    by (rule tick_status[OF assms(2,3)])
  moreover have "w\<lparr>w_status := fst (tick_body w (Body b) res)\<rparr> = w"
    using assms(3)[symmetric] by (simp add: tb)
  ultimately have 3: "w \<in> set (goroutines ?s)" by simp
  have "reachable ?s" using reachable_step[OF assms(1), of "Tick (w_chan w) (Body b) res"] by simp
  then have "length (live_for (w_email w) ?s) \<le> 1" by (rule at_most_one_live)
  moreover have "w \<in> set (live_for (w_email w) ?s)" using 3 assms(3) by (simp add: live_for_def)
  then have "length (live_for (w_email w) ?s) \<noteq> 0" by auto
  ultimately have 4: "length (live_for (w_email w) ?s) = 1" by linarith
  from 1 2 3 4 show ?thesis by blast
qed

theorem tick_notifies_iff_positive_witness:
  "filter is_notify
     (new_events (snd (startCourseCheckHandler ''ann@neu.edu'' ''12345'' init))
        (tick 0 (Body (seats_prefix @ ''5'' @ seats_suffix)) SmtpOk
           (snd (startCourseCheckHandler ''ann@neu.edu'' ''12345'' init))))
     = [EvNotify ''ann@neu.edu'' 5 ''12345''] \<and>
   new_events (snd (startCourseCheckHandler ''ann@neu.edu'' ''12345'' init))
        (tick 0 (Body (seats_prefix @ ''0'' @ seats_suffix)) SmtpOk
           (snd (startCourseCheckHandler ''ann@neu.edu'' ''12345'' init)))
     = [EvCheck 0 ''12345'', EvHttpPost ''12345''] \<and>
   length (live_for ''ann@neu.edu''
        (tick 0 (Body (seats_prefix @ ''5'' @ seats_suffix)) SmtpOk
           (snd (startCourseCheckHandler ''ann@neu.edu'' ''12345'' init)))) = 1 \<and>
   length (live_for ''ann@neu.edu''
        (tick 0 (Body (seats_prefix @ ''0'' @ seats_suffix)) SmtpOk
           (snd (startCourseCheckHandler ''ann@neu.edu'' ''12345'' init)))) = 1"
proof -
  let ?w = "\<lparr>w_email = ''ann@neu.edu'', w_crn = ''12345'', w_chan = 0, w_status = Running\<rparr>"
  have r: "w_status ?w = Running" by simp
  from tick_notifies_iff_positive[OF ann_reachable ann_watcher r five_parse, of SmtpOk]
    tick_notifies_iff_positive[OF ann_reachable ann_watcher r zero_parse, of SmtpOk]
  show ?thesis by simp
qed

text \<open>
  C6: when the mail send of a tick fails, the error is logged, the watcher stays running,
  and its next tick, whatever the network answers, starts with an availability check.
\<close>

theorem notifier_failure_not_fatal:
  assumes "reachable s" and "w \<in> set (goroutines s)" and "w_status w = Running"
    and "parseAvailableSeats b = Inr n" and "0 < n"
  shows "EvLogErr ''Error sending email: '' (External e)
           \<in> set (new_events s (tick (w_chan w) (Body b) (SmtpFailed e) s)) \<and>
         w \<in> set (goroutines (tick (w_chan w) (Body b) (SmtpFailed e) s)) \<and>
         (\<exists>evs. new_events (tick (w_chan w) (Body b) (SmtpFailed e) s)
                  (tick (w_chan w) f res (tick (w_chan w) (Body b) (SmtpFailed e) s))
                = EvCheck (w_chan w) (w_crn w) # evs)"
proof -
  let ?s = "tick (w_chan w) (Body b) (SmtpFailed e) s"
  have tb: "tick_body w (Body b) (SmtpFailed e) =
      (Running, [EvCheck (w_chan w) (w_crn w), EvHttpPost (w_crn w),
         EvNotify (w_email w) n (w_crn w),
         EvSendMail (w_email w) (mail_message n (w_crn w)),
         EvLogErr ''Error sending email: '' (External e)])"
    using assms(4,5) by (simp add: tick_body_def sendEmailNotification_def)
  have ev: "new_events s ?s = snd (tick_body w (Body b) (SmtpFailed e))"
    by (rule tick_events[OF reachable_inv[OF assms(1)] assms(2,3)])
  have 1: "EvLogErr ''Error sending email: '' (External e) \<in> set (new_events s ?s)"
    unfolding ev tb by simp
  have "w\<lparr>w_status := fst (tick_body w (Body b) (SmtpFailed e))\<rparr> \<in> set (goroutines ?s)"
    by (rule tick_status[OF assms(2,3)])
  moreover have "w\<lparr>w_status := fst (tick_body w (Body b) (SmtpFailed e))\<rparr> = w"
    using assms(3)[symmetric] by (simp add: tb)
  ultimately have 2: "w \<in> set (goroutines ?s)" by simp
  have r: "reachable ?s"
    using reachable_step[OF assms(1), of "Tick (w_chan w) (Body b) (SmtpFailed e)"] by simp
  have "new_events ?s (tick (w_chan w) f res ?s) = snd (tick_body w f res)"
    by (rule tick_events[OF reachable_inv[OF r] 2 assms(3)])
  with tick_body_check[of w f res] have 3: "\<exists>evs. new_events ?s (tick (w_chan w) f res ?s)
                = EvCheck (w_chan w) (w_crn w) # evs" by simp
  from 1 2 3 show ?thesis by blast
qed

theorem notifier_failure_not_fatal_witness:
  "EvLogErr ''Error sending email: '' (External ''connection refused'')
     \<in> set (new_events (snd (startCourseCheckHandler ''ann@neu.edu'' ''12345'' init))
         (tick 0 (Body (seats_prefix @ ''5'' @ seats_suffix)) (SmtpFailed ''connection refused'')
            (snd (startCourseCheckHandler ''ann@neu.edu'' ''12345'' init)))) \<and>
   \<lparr>w_email = ''ann@neu.edu'', w_crn = ''12345'', w_chan = 0, w_status = Running\<rparr>
     \<in> set (goroutines
         (tick 0 (Body (seats_prefix @ ''5'' @ seats_suffix)) (SmtpFailed ''connection refused'')
            (snd (startCourseCheckHandler ''ann@neu.edu'' ''12345'' init)))) \<and>
   (\<exists>evs. new_events
        (tick 0 (Body (seats_prefix @ ''5'' @ seats_suffix)) (SmtpFailed ''connection refused'')
           (snd (startCourseCheckHandler ''ann@neu.edu'' ''12345'' init)))
        (tick 0 (Body (seats_prefix @ ''0'' @ seats_suffix)) SmtpOk
           (tick 0 (Body (seats_prefix @ ''5'' @ seats_suffix)) (SmtpFailed ''connection refused'')
              (snd (startCourseCheckHandler ''ann@neu.edu'' ''12345'' init))))
      = EvCheck 0 ''12345'' # evs)"
proof -
  let ?w = "\<lparr>w_email = ''ann@neu.edu'', w_crn = ''12345'', w_chan = 0, w_status = Running\<rparr>"
  have r: "w_status ?w = Running" by simp
  have p: "(0::int) < 5" by simp
  from notifier_failure_not_fatal[OF ann_reachable ann_watcher r five_parse p,
      of "''connection refused''" "Body (seats_prefix @ ''0'' @ seats_suffix)" SmtpOk]
  show ?thesis by simp
qed

section \<open>After a stop\<close>

lemma tick_body_is_check:
  "w_chan w \<noteq> ch \<Longrightarrow> filter (is_check ch) (snd (tick_body w f res)) = []"
  by (cases f; cases res)
    (auto simp: tick_body_def sendEmailNotification_def split: sum.splits)

lemma stop_case_is_check: "filter (is_check ch) (snd (stop_case w)) = []"
  by (simp add: stop_case_def)

lemma filter_concat_empty:
  "(\<And>x. x \<in> set xs \<Longrightarrow> filter P (g x) = []) \<Longrightarrow> filter P (concat (map g xs)) = []"
  by (induction xs) auto

lemma returned_tick:
  assumes "returned ch s"
  shows "returned ch (tick c f res s) \<and>
         filter (is_check ch) (events (tick c f res s)) = filter (is_check ch) (events s)"
proof -
  have a: "\<And>w. w \<in> set (filter (at_select c) (goroutines s)) \<Longrightarrow> w_chan w \<noteq> ch"
    using assms by (auto simp: returned_def list_all_iff at_select_def)
  have "filter (is_check ch)
      (concat (map (\<lambda>w. snd (tick_body w f res)) (filter (at_select c) (goroutines s)))) = []"
    by (rule filter_concat_empty) (simp add: tick_body_is_check a)
  then have e: "filter (is_check ch) (events (tick c f res s)) = filter (is_check ch) (events s)"
    by (simp add: tick_def)
  have "returned ch (tick c f res s)"
    using assms by (auto simp: returned_def tick_def list_all_iff at_select_def)
  with e show ?thesis by simp
qed

lemma returned_start:
  assumes "returned ch s"
  shows "returned ch (snd (startCourseCheckHandler email crn s)) \<and>
         filter (is_check ch) (events (snd (startCourseCheckHandler email crn s)))
           = filter (is_check ch) (events s)"
  using assms
  by (auto simp: startCourseCheckHandler_def returned_def emit_def Let_def list_all_iff
      split: option.splits)

lemma returned_stop:
  assumes "returned ch s"
  shows "returned ch (snd (stopCourseCheckHandler email s)) \<and>
         filter (is_check ch) (events (snd (stopCourseCheckHandler email s)))
           = filter (is_check ch) (events s)"
proof (cases "email = [] \<or> mux_held s")
  case True
  with assms show ?thesis by (auto simp: stopCourseCheckHandler_def returned_def emit_def)
next
  case False
  then have K: "email \<noteq> []" and m: "\<not> mux_held s" by simp_all
  show ?thesis
  proof (cases "subscriptions s email")
    case None
    with assms show ?thesis by (simp add: stop_absent[OF K m] returned_def emit_def)
  next
    case (Some c)
    show ?thesis
    proof (cases "c \<in> closed_chans s")
      case True
      with assms Some K m show ?thesis
        by (simp add: stopCourseCheckHandler_def returned_def emit_def)
    next
      case nc: False
      show ?thesis
      proof (cases "list_ex (at_select c) (goroutines s)")
        case False
        with assms show ?thesis by (simp add: stop_stuck[OF K m Some nc] returned_def emit_def)
      next
        case True
        have e: "filter (is_check ch)
            (concat (map (\<lambda>w. snd (stop_case w)) (filter (at_select c) (goroutines s)))) = []"
          by (rule filter_concat_empty) (simp add: stop_case_is_check)
        have "list_all (\<lambda>w. w_chan w = ch \<longrightarrow> w_status w = Terminated)
            (map (\<lambda>w. if at_select c w then w\<lparr>w_status := Terminated\<rparr> else w) (goroutines s))"
          using assms by (auto simp: returned_def list_all_iff)
        with assms e show ?thesis
          by (simp add: stop_success[OF K m Some nc True] returned_def)
      qed
    qed
  qed
qed

lemma returned_step:
  "returned ch s \<Longrightarrow>
     returned ch (step i s) \<and> filter (is_check ch) (events (step i s)) = filter (is_check ch) (events s)"
  by (cases i) (simp_all add: returned_start returned_stop returned_tick)

lemma returned_run:
  "returned ch s \<Longrightarrow>
     returned ch (run ins s) \<and> filter (is_check ch) (events (run ins s)) = filter (is_check ch) (events s)"
proof (induction ins arbitrary: s)
  case Nil
  then show ?case by simp
next
  case (Cons i ins)
  from returned_step[OF Cons.prems, of i] Cons.IH[of "step i s"] show ?case by simp
qed

text \<open>
  C7: when \<open>Stop(K)\<close> has returned \<open>Stopped\<close>, the watcher of \<open>K\<close> has received the
  signal and has returned; whatever happens afterwards, it stays returned and the
  availability checks made through its channel are those made before the \<open>Stop\<close>.
\<close>

theorem stop_terminates_polling:
  assumes "reachable s"
    and "stopCourseCheckHandler K s = (Returned (Stopped K), s')"
    and "subscriptions s K = Some ch"
  shows "EvChanRecv ch \<in> set (new_events s s') \<and>
         returned ch s' \<and>
         returned ch (run ins s') \<and>
         filter (is_check ch) (events (run ins s')) = filter (is_check ch) (events s')"
proof -
  from stop_Stopped[OF assms(2)] assms(3)
  have K: "K \<noteq> []" and m: "\<not> mux_held s" and nc: "ch \<notin> closed_chans s"
    and rc: "list_ex (at_select ch) (goroutines s)" by auto
  from assms(2) have s': "s' = snd (stopCourseCheckHandler K s)" by simp
  from reachable_inv[OF assms(1)] assms(3) have lt: "ch < next_chan s"
    unfolding inv_def by blast
  from rc obtain w where w: "w \<in> set (goroutines s)" "at_select ch w"
    by (auto simp: list_ex_iff)
  then have "EvChanRecv ch \<in> set (snd (stop_case w))" by (simp add: stop_case_def at_select_def)
  with w have 1: "EvChanRecv ch \<in> set (new_events s s')"
    unfolding s' by (auto simp: stop_success[OF K m assms(3) nc rc] new_events_def)
  have g: "goroutines s' =
      map (\<lambda>w. if at_select ch w then w\<lparr>w_status := Terminated\<rparr> else w) (goroutines s)"
    and n: "next_chan s' = next_chan s"
    unfolding s' by (simp_all add: stop_success[OF K m assms(3) nc rc])
  have t: "\<And>x. w_chan x = ch \<Longrightarrow> \<not> at_select ch x \<Longrightarrow> w_status x = Terminated"
    unfolding at_select_def by (metis wstatus.exhaust)
  have "list_all (\<lambda>w. w_chan w = ch \<longrightarrow> w_status w = Terminated) (goroutines s')"
    unfolding g list_all_iff using t by auto
  with lt n have 2: "returned ch s'" by (simp add: returned_def)
  from 1 2 returned_run[OF 2, of ins] show ?thesis by simp
qed

theorem stop_terminates_polling_witness:
  "EvChanRecv 0 \<in> set (new_events (snd (startCourseCheckHandler ''ann@neu.edu'' ''12345'' init))
      (snd (stopCourseCheckHandler ''ann@neu.edu''
         (snd (startCourseCheckHandler ''ann@neu.edu'' ''12345'' init))))) \<and>
   returned 0 (snd (stopCourseCheckHandler ''ann@neu.edu''
         (snd (startCourseCheckHandler ''ann@neu.edu'' ''12345'' init)))) \<and>
   returned 0
     (run [Tick 0 (Body (seats_prefix @ ''5'' @ seats_suffix)) SmtpOk,
           Start ''ann@neu.edu'' ''12345'',
           Tick 1 (Body (seats_prefix @ ''5'' @ seats_suffix)) SmtpOk]
        (snd (stopCourseCheckHandler ''ann@neu.edu''
           (snd (startCourseCheckHandler ''ann@neu.edu'' ''12345'' init))))) \<and>
   filter (is_check 0) (events
     (run [Tick 0 (Body (seats_prefix @ ''5'' @ seats_suffix)) SmtpOk,
           Start ''ann@neu.edu'' ''12345'',
           Tick 1 (Body (seats_prefix @ ''5'' @ seats_suffix)) SmtpOk]
        (snd (stopCourseCheckHandler ''ann@neu.edu''
           (snd (startCourseCheckHandler ''ann@neu.edu'' ''12345'' init))))))
   = filter (is_check 0) (events (snd (stopCourseCheckHandler ''ann@neu.edu''
         (snd (startCourseCheckHandler ''ann@neu.edu'' ''12345'' init)))))"
proof -
  let ?s = "snd (startCourseCheckHandler ''ann@neu.edu'' ''12345'' init)"
  have e: "stopCourseCheckHandler ''ann@neu.edu'' ?s
      = (Returned (Stopped ''ann@neu.edu''), snd (stopCourseCheckHandler ''ann@neu.edu'' ?s))"
    using ann_stopped by (metis prod.collapse)
  have su: "subscriptions ?s ''ann@neu.edu'' = Some 0" by (simp add: ann_started)
  from stop_terminates_polling[OF ann_reachable e su] show ?thesis .
qed

section \<open>The cancellation handle\<close>

lemma send_count_append: "send_count ch (a @ b) = send_count ch a + send_count ch b"
  by (simp add: send_count_def)

lemma send_count_concat_zero:
  "(\<And>x. x \<in> set xs \<Longrightarrow> send_count ch (g x) = 0) \<Longrightarrow> send_count ch (concat (map g xs)) = 0"
  by (induction xs) (auto simp: send_count_append, simp add: send_count_def)

lemma send_count_tick_body: "send_count ch (snd (tick_body w f res)) = 0"
  by (cases f; cases res)
    (auto simp: tick_body_def sendEmailNotification_def send_count_def split: sum.splits)

lemma send_count_stop_case: "send_count ch (snd (stop_case w)) = 0"
  by (simp add: stop_case_def send_count_def)

lemma inv_send_init: "inv_send init"
  by (simp add: inv_send_def init_def send_count_def)

lemma inv_send_tick:
  assumes "inv_send s"
  shows "inv_send (tick c f res s)"
proof -
  have "\<And>ch. send_count ch (events (tick c f res s)) = send_count ch (events s)"
    by (simp add: tick_def send_count_append send_count_concat_zero send_count_tick_body)
  moreover have "next_chan (tick c f res s) = next_chan s" "mux_held (tick c f res s) = mux_held s"
    "subscriptions (tick c f res s) = subscriptions s" by (simp_all add: tick_def)
  ultimately show ?thesis using assms by (simp add: inv_send_def)
qed

lemma inv_send_start:
  assumes "inv_send s"
  shows "inv_send (snd (startCourseCheckHandler email crn s))"
proof (cases "email = [] \<or> crn = [] \<or> mux_held s")
  case True
  with assms show ?thesis
    by (auto simp: startCourseCheckHandler_def inv_send_def emit_def send_count_def)
next
  case False
  show ?thesis
  proof (cases "subscriptions s email")
    case (Some c)
    with False assms show ?thesis
      by (simp add: startCourseCheckHandler_def inv_send_def emit_def send_count_def)
  next
    case None
    let ?s = "snd (startCourseCheckHandler email crn s)"
    have c: "\<And>ch. send_count ch (events ?s) = send_count ch (events s)"
      and n: "next_chan ?s = Suc (next_chan s)"
      and m: "mux_held ?s = mux_held s"
      and su: "subscriptions ?s = (subscriptions s)(email \<mapsto> next_chan s)"
      using False None by (simp_all add: startCourseCheckHandler_def Let_def send_count_def)
    show ?thesis unfolding inv_send_def
    proof (intro allI conjI impI)
      fix ch
      show "send_count ch (events ?s) \<le> 1" using assms by (simp add: c inv_send_def)
    next
      fix ch assume "next_chan ?s \<le> ch"
      then show "send_count ch (events ?s) = 0" using assms by (simp add: c n inv_send_def)
    next
      fix ch assume a: "send_count ch (events ?s) = 1"
      then have "send_count ch (events s) = 1" by (simp add: c)
      with assms have h: "mux_held s \<or> (\<forall>k. subscriptions s k \<noteq> Some ch)"
        and "ch < next_chan s" unfolding inv_send_def by (blast, force)
      then show "mux_held ?s \<or> (\<forall>k. subscriptions ?s k \<noteq> Some ch)"
        by (auto simp: m su)
    qed
  qed
qed

lemma inv_send_stop:
  assumes "inv_send s" "inv s"
  shows "inv_send (snd (stopCourseCheckHandler email s))"
proof (cases "email = [] \<or> mux_held s")
  case True
  with assms show ?thesis
    by (auto simp: stopCourseCheckHandler_def inv_send_def emit_def send_count_def)
next
  case False
  then have K: "email \<noteq> []" and m: "\<not> mux_held s" by simp_all
  show ?thesis
  proof (cases "subscriptions s email")
    case None
    with assms show ?thesis
      by (simp add: stop_absent[OF K m] inv_send_def emit_def send_count_def)
  next
    case (Some c)
    from assms(2) Some have nc: "c \<notin> closed_chans s" and lt: "c < next_chan s"
      unfolding inv_def by blast+
    from assms(1) m Some have z: "send_count c (events s) = 0"
      unfolding inv_send_def by (metis le_Suc_eq le_zero_eq One_nat_def)
    show ?thesis
    proof (cases "list_ex (at_select c) (goroutines s)")
      case False
      let ?s = "snd (stopCourseCheckHandler email s)"
      have e: "\<And>ch. send_count ch (events ?s) = send_count ch (events s) + (if ch = c then 1 else 0)"
        and n: "next_chan ?s = next_chan s" and mh: "mux_held ?s"
        by (simp_all add: stop_stuck[OF K m Some nc False] emit_def send_count_def)
      show ?thesis unfolding inv_send_def
      proof (intro allI conjI impI)
        fix ch show "send_count ch (events ?s) \<le> 1"
          using assms(1) z by (auto simp: e inv_send_def)
      next
        fix ch assume "next_chan ?s \<le> ch"
        then show "send_count ch (events ?s) = 0" using assms(1) lt by (auto simp: e n inv_send_def)
      next
        fix ch show "mux_held ?s \<or> (\<forall>k. subscriptions ?s k \<noteq> Some ch)" using mh by simp
      qed
    next
      case True
      let ?s = "snd (stopCourseCheckHandler email s)"
      have "\<And>ch. send_count ch (concat (map (\<lambda>w. snd (stop_case w))
          (filter (at_select c) (goroutines s)))) = 0"
        by (rule send_count_concat_zero) (simp add: send_count_stop_case)
      then have e: "\<And>ch. send_count ch (events ?s) = send_count ch (events s) + (if ch = c then 1 else 0)"
        by (simp add: stop_success[OF K m Some nc True] send_count_append, simp add: send_count_def)
      have n: "next_chan ?s = next_chan s" and mh: "mux_held ?s = mux_held s"
        and su: "subscriptions ?s = (subscriptions s)(email := None)"
        by (simp_all add: stop_success[OF K m Some nc True])
      show ?thesis unfolding inv_send_def
      proof (intro allI conjI impI)
        fix ch show "send_count ch (events ?s) \<le> 1"
          using assms(1) z by (auto simp: e inv_send_def)
      next
        fix ch assume "next_chan ?s \<le> ch"
        then show "send_count ch (events ?s) = 0" using assms(1) lt by (auto simp: e n inv_send_def)
      next
        fix ch assume a: "send_count ch (events ?s) = 1"
        show "mux_held ?s \<or> (\<forall>k. subscriptions ?s k \<noteq> Some ch)"
        proof (cases "ch = c")
          case True
          have "\<forall>k. subscriptions ?s k \<noteq> Some c"
            using inv_inj[OF assms(2) _ Some] by (auto simp: su)
          with True show ?thesis by simp
        next
          case False
          with a have "send_count ch (events s) = 1" by (simp add: e)
          with assms(1) m have "\<forall>k. subscriptions s k \<noteq> Some ch" unfolding inv_send_def by blast
          then show ?thesis by (simp add: su)
        qed
      qed
    qed
  qed
qed

lemma inv_send_step: "inv_send s \<Longrightarrow> inv s \<Longrightarrow> inv_send (step i s)"
  by (cases i) (simp_all add: inv_send_start inv_send_stop inv_send_tick)

lemma reachable_inv_send: "reachable s \<Longrightarrow> inv_send s"
  by (induction rule: reachable.induct) (simp_all add: inv_send_init inv_send_step reachable_inv)

lemma stop_trace:
  assumes "inv s" and "stopCourseCheckHandler K s = (Returned (Stopped K), s')"
    and "subscriptions s K = Some ch"
  shows "new_events s s' =
     [EvLock, EvMapLookup K, EvChanSend ch, EvChanRecv ch, EvLog [''Stopping course check for'', K],
      EvChanClose ch, EvMapDelete K, EvUnlock, EvRespond (Stopped K)]"
proof -
  from stop_Stopped[OF assms(2)] assms(3)
  have K: "K \<noteq> []" and m: "\<not> mux_held s" and nc: "ch \<notin> closed_chans s"
    and rc: "list_ex (at_select ch) (goroutines s)" by auto
  from assms(2) have s': "s' = snd (stopCourseCheckHandler K s)" by simp
  from rc obtain w where w: "w \<in> set (goroutines s)" "w_chan w = ch" "w_status w = Running"
    by (auto simp: list_ex_iff at_select_def)
  from assms(1) w have "subscriptions s (w_email w) = Some ch" unfolding inv_def by blast
  from inv_inj[OF assms(1) this assms(3)] have e: "w_email w = K" .
  have "filter (at_select ch) (goroutines s) = [w]"
    using select_unique[OF assms(1) w(1,3)] w(2) by simp
  then show ?thesis
    unfolding s' by (simp add: stop_success[OF K m assms(3) nc rc] new_events_def stop_case_def w e)
qed

text \<open>
  C8, as stated: the entry of the key is removed before the handle is signalled. In the
  events of a \<open>Stop\<close> the send of line 67 comes first, then the close of line 68, and only
  then the delete of line 69.
\<close>

theorem removed_before_signal_counterexample:
  "new_events (snd (startCourseCheckHandler ''ann@neu.edu'' ''12345'' init))
     (snd (stopCourseCheckHandler ''ann@neu.edu''
        (snd (startCourseCheckHandler ''ann@neu.edu'' ''12345'' init))))
   = [EvLock, EvMapLookup ''ann@neu.edu'', EvChanSend 0, EvChanRecv 0,
      EvLog [''Stopping course check for'', ''ann@neu.edu''],
      EvChanClose 0, EvMapDelete ''ann@neu.edu'', EvUnlock, EvRespond (Stopped ''ann@neu.edu'')] \<and>
   \<not> removed_before_signal ''ann@neu.edu'' 0
     (new_events (snd (startCourseCheckHandler ''ann@neu.edu'' ''12345'' init))
        (snd (stopCourseCheckHandler ''ann@neu.edu''
           (snd (startCourseCheckHandler ''ann@neu.edu'' ''12345'' init)))))"
  by (simp add: ann_started stopCourseCheckHandler_def at_select_def new_events_def stop_case_def)

lemma stop_signals_once:
  assumes "reachable s"
    and "stopCourseCheckHandler K s = (Returned (Stopped K), s')"
    and "subscriptions s K = Some ch"
  shows "send_count c (events s) \<le> 1 \<and>
         send_count ch (events s) = 0 \<and>
         new_events s s' =
           [EvLock, EvMapLookup K, EvChanSend ch, EvChanRecv ch,
            EvLog [''Stopping course check for'', K],
            EvChanClose ch, EvMapDelete K, EvUnlock, EvRespond (Stopped K)] \<and>
         subscriptions s' K = None \<and>
         send_count ch (events s') = 1 \<and>
         send_count ch (events (run ins s')) = 1"
proof -
  from stop_Stopped[OF assms(2)] assms(3)
  have K: "K \<noteq> []" and m: "\<not> mux_held s" and nc: "ch \<notin> closed_chans s"
    and rc: "list_ex (at_select ch) (goroutines s)" by auto
  from assms(2) have s': "s' = snd (stopCourseCheckHandler K s)" by simp
  have i: "inv_send s" by (rule reachable_inv_send[OF assms(1)])
  then have 1: "send_count c (events s) \<le> 1" by (simp add: inv_send_def)
  from i m assms(3) have 2: "send_count ch (events s) = 0"
    unfolding inv_send_def by (metis le_Suc_eq le_zero_eq One_nat_def)
  have 3: "new_events s s' =
           [EvLock, EvMapLookup K, EvChanSend ch, EvChanRecv ch,
            EvLog [''Stopping course check for'', K],
            EvChanClose ch, EvMapDelete K, EvUnlock, EvRespond (Stopped K)]"
    by (rule stop_trace[OF reachable_inv[OF assms(1)] assms(2,3)])
  have 4: "subscriptions s' K = None"
    unfolding s' by (simp add: stop_success[OF K m assms(3) nc rc])
  from events_step[of "Stop K" s] obtain es where es: "events s' = events s @ es"
    unfolding s' by auto
  then have "new_events s s' = es" by (simp add: new_events_def)
  with 3 es 2 have 5: "send_count ch (events s') = 1"
    by (simp add: send_count_append) (simp add: send_count_def)
  have "reachable s'" unfolding s' using reachable_step[OF assms(1), of "Stop K"] by simp
  then have "reachable (run ins s')" by (rule reachable_run)
  then have "send_count ch (events (run ins s')) \<le> 1"
    using reachable_inv_send by (simp add: inv_send_def)
  moreover from events_run[of ins s'] obtain e2 where "events (run ins s') = events s' @ e2"
    by blast
  then have "send_count ch (events (run ins s')) \<ge> 1" using 5 by (simp add: send_count_append)
  ultimately have 6: "send_count ch (events (run ins s')) = 1" by linarith
  from 1 2 3 4 5 6 show ?thesis by blast
qed

text \<open>
  C8, amended: no channel is ever sent to more than once. A \<open>Stop(K)\<close> that returns
  \<open>Stopped\<close> is the first to send to the handle of \<open>K\<close>; inside one critical section
  it sends, the watcher receives, it closes the handle and then deletes the entry; the key
  is unregistered afterwards and nothing that happens later sends to that handle again.
\<close>

theorem handle_signalled_once:
  assumes "reachable s"
  shows "send_count c (events s) \<le> 1 \<and>
         (\<forall>K s' ch ins.
            stopCourseCheckHandler K s = (Returned (Stopped K), s') \<and> subscriptions s K = Some ch \<longrightarrow>
              send_count ch (events s) = 0 \<and>
              new_events s s' =
                [EvLock, EvMapLookup K, EvChanSend ch, EvChanRecv ch,
                 EvLog [''Stopping course check for'', K],
                 EvChanClose ch, EvMapDelete K, EvUnlock, EvRespond (Stopped K)] \<and>
              subscriptions s' K = None \<and>
              send_count ch (events s') = 1 \<and>
              send_count ch (events (run ins s')) = 1)"
proof
  show "send_count c (events s) \<le> 1"
    using reachable_inv_send[OF assms] by (simp add: inv_send_def)
  show "\<forall>K s' ch ins.
            stopCourseCheckHandler K s = (Returned (Stopped K), s') \<and> subscriptions s K = Some ch \<longrightarrow>
              send_count ch (events s) = 0 \<and>
              new_events s s' =
                [EvLock, EvMapLookup K, EvChanSend ch, EvChanRecv ch,
                 EvLog [''Stopping course check for'', K],
                 EvChanClose ch, EvMapDelete K, EvUnlock, EvRespond (Stopped K)] \<and>
              subscriptions s' K = None \<and>
              send_count ch (events s') = 1 \<and>
              send_count ch (events (run ins s')) = 1"
    using stop_signals_once[OF assms] by blast
qed

theorem handle_signalled_once_witness:
  "send_count 0 (events (snd (startCourseCheckHandler ''ann@neu.edu'' ''12345'' init))) \<le> 1 \<and>
   send_count 0 (events (snd (startCourseCheckHandler ''ann@neu.edu'' ''12345'' init))) = 0 \<and>
   subscriptions (snd (stopCourseCheckHandler ''ann@neu.edu''
        (snd (startCourseCheckHandler ''ann@neu.edu'' ''12345'' init)))) ''ann@neu.edu'' = None \<and>
   send_count 0 (events (snd (stopCourseCheckHandler ''ann@neu.edu''
        (snd (startCourseCheckHandler ''ann@neu.edu'' ''12345'' init))))) = 1 \<and>
   send_count 0 (events (run [Stop ''ann@neu.edu'', Start ''ann@neu.edu'' ''67890'', Stop ''ann@neu.edu'']
      (snd (stopCourseCheckHandler ''ann@neu.edu''
        (snd (startCourseCheckHandler ''ann@neu.edu'' ''12345'' init)))))) = 1"
proof -
  let ?s = "snd (startCourseCheckHandler ''ann@neu.edu'' ''12345'' init)"
  let ?ins = "[Stop ''ann@neu.edu'', Start ''ann@neu.edu'' ''67890'', Stop ''ann@neu.edu'']"
  have e: "stopCourseCheckHandler ''ann@neu.edu'' ?s
      = (Returned (Stopped ''ann@neu.edu''), snd (stopCourseCheckHandler ''ann@neu.edu'' ?s))"
    using ann_stopped by (metis prod.collapse)
  have su: "subscriptions ?s ''ann@neu.edu'' = Some 0" by (simp add: ann_started)
  from handle_signalled_once[OF ann_reachable, of 0]
  have 1: "send_count 0 (events ?s) \<le> 1"
    and 2: "\<And>K s' ch ins.
            stopCourseCheckHandler K ?s = (Returned (Stopped K), s') \<Longrightarrow> subscriptions ?s K = Some ch \<Longrightarrow>
              send_count ch (events ?s) = 0 \<and>
              subscriptions s' K = None \<and>
              send_count ch (events s') = 1 \<and>
              send_count ch (events (run ins s')) = 1"
    by blast+
  from 1 2[OF e su, of ?ins] show ?thesis by blast
qed

section \<open>The critical sections\<close>

lemma by_handler_stop_case: "filter by_handler (snd (stop_case w)) = []"
  by (simp add: stop_case_def)

lemma start_critical:
  "critical_section s (snd (startCourseCheckHandler K t s)) =
     (if K = [] \<or> t = [] \<or> mux_held s then []
      else case subscriptions s K of
             Some c \<Rightarrow> [EvMapLookup K]
           | None \<Rightarrow> [EvMapLookup K, EvMakeChan (next_chan s), EvMapInsert K (next_chan s)])"
  by (simp add: critical_section_def new_events_def startCourseCheckHandler_def emit_def Let_def
      split: option.splits)

lemma stop_critical:
  "critical_section s (snd (stopCourseCheckHandler K s)) =
     (if K = [] \<or> mux_held s then []
      else case subscriptions s K of
             None \<Rightarrow> [EvMapLookup K]
           | Some c \<Rightarrow>
               if c \<in> closed_chans s \<or> \<not> list_ex (at_select c) (goroutines s)
               then [EvMapLookup K, EvChanSend c]
               else [EvMapLookup K, EvChanSend c, EvChanClose c, EvMapDelete K])"
proof -
  have "\<And>c. filter by_handler
      (concat (map (\<lambda>w. snd (stop_case w)) (filter (at_select c) (goroutines s)))) = []"
    by (rule filter_concat_empty) (simp add: by_handler_stop_case)
  then show ?thesis
    by (simp add: critical_section_def new_events_def stopCourseCheckHandler_def emit_def
        split: option.splits)
qed

text \<open>
  C9, as stated: no handler performs a blocking operation while it holds the mutex. The
  critical section of a \<open>Stop\<close> for a registered key contains the channel send of line 67,
  which waits for the watcher to receive.
\<close>

theorem lock_hold_counterexample:
  "critical_section (snd (startCourseCheckHandler ''ann@neu.edu'' ''12345'' init))
     (snd (stopCourseCheckHandler ''ann@neu.edu''
        (snd (startCourseCheckHandler ''ann@neu.edu'' ''12345'' init))))
   = [EvMapLookup ''ann@neu.edu'', EvChanSend 0, EvChanClose 0, EvMapDelete ''ann@neu.edu''] \<and>
   blocking (EvChanSend 0)"
  by (simp add: stop_critical ann_started at_select_def)

text \<open>
  C9, amended: \<open>Start\<close> performs no blocking operation between \<open>Lock\<close> and \<open>Unlock\<close>;
  the only blocking operation \<open>Stop\<close> performs there is the send to the handle of a
  registered key, and there is none when the key is not registered; neither handler ever
  makes a network call or sends a mail.
\<close>

theorem lock_hold_operations:
  "filter blocking (critical_section s (snd (startCourseCheckHandler K t s))) = [] \<and>
   filter blocking (critical_section s (snd (stopCourseCheckHandler K s))) =
     (if K = [] \<or> mux_held s then []
      else case subscriptions s K of None \<Rightarrow> [] | Some c \<Rightarrow> [EvChanSend c]) \<and>
   filter network_or_mail (new_events s (snd (startCourseCheckHandler K t s))) = [] \<and>
   filter network_or_mail (new_events s (snd (stopCourseCheckHandler K s))) = []"
proof -
  have 1: "filter blocking (critical_section s (snd (startCourseCheckHandler K t s))) = []"
    by (simp add: start_critical split: option.splits)
  have 2: "filter blocking (critical_section s (snd (stopCourseCheckHandler K s))) =
     (if K = [] \<or> mux_held s then []
      else case subscriptions s K of None \<Rightarrow> [] | Some c \<Rightarrow> [EvChanSend c])"
    by (simp add: stop_critical split: option.splits)
  have 3: "filter network_or_mail
      (new_events s (snd (startCourseCheckHandler K t s))) = []"
    by (simp add: new_events_def startCourseCheckHandler_def emit_def Let_def split: option.splits)
  have "\<And>c. filter network_or_mail
      (concat (map (\<lambda>w. snd (stop_case w)) (filter (at_select c) (goroutines s)))) = []"
    by (rule filter_concat_empty) (simp add: stop_case_def)
  then have 4: "filter network_or_mail
      (new_events s (snd (stopCourseCheckHandler K s))) = []"
    by (simp add: new_events_def stopCourseCheckHandler_def emit_def split: option.splits)
  from 1 2 3 4 show ?thesis by blast
qed

theorem lock_hold_operations_witness:
  "filter blocking (critical_section (snd (startCourseCheckHandler ''ann@neu.edu'' ''12345'' init))
     (snd (startCourseCheckHandler ''bob@neu.edu'' ''31415''
        (snd (startCourseCheckHandler ''ann@neu.edu'' ''12345'' init))))) = [] \<and>
   filter blocking (critical_section (snd (startCourseCheckHandler ''ann@neu.edu'' ''12345'' init))
     (snd (stopCourseCheckHandler ''ann@neu.edu''
        (snd (startCourseCheckHandler ''ann@neu.edu'' ''12345'' init))))) = [EvChanSend 0] \<and>
   filter blocking (critical_section (snd (startCourseCheckHandler ''ann@neu.edu'' ''12345'' init))
     (snd (stopCourseCheckHandler ''bob@neu.edu''
        (snd (startCourseCheckHandler ''ann@neu.edu'' ''12345'' init))))) = []"
  using lock_hold_operations[of "snd (startCourseCheckHandler ''ann@neu.edu'' ''12345'' init)"
      "''bob@neu.edu''" "''31415''"]
    lock_hold_operations[of "snd (startCourseCheckHandler ''ann@neu.edu'' ''12345'' init)"
      "''ann@neu.edu''" "''12345''"]
  by (simp add: ann_started)

end
